theory Spec2Isabelle
  imports Main
begin

section \<open>Component model (src/main.cpp, classes Component, Game, Group)\<close>

text \<open>
  The class hierarchy \<^verbatim>\<open>Component\<close> / \<^verbatim>\<open>Game\<close> / \<^verbatim>\<open>Group\<close> is a tagged union.
  A \<^verbatim>\<open>Game\<close> carries \<^verbatim>\<open>name\<close> and \<^verbatim>\<open>revenue\<close>; a \<^verbatim>\<open>Group\<close> carries
  \<^verbatim>\<open>name\<close> and the vector \<^verbatim>\<open>children\<close> of exclusively owned components.

  The revenue type is the type parameter \<open>'r\<close>, standing for \<^verbatim>\<open>double\<close>. Where the
  code adds revenues, \<open>'r\<close> has an addition and a zero of which nothing is assumed:
  the addition of \<^verbatim>\<open>double\<close> rounds, and is not associative. The two library
  conversions between \<^verbatim>\<open>double\<close> and text (\<^verbatim>\<open>operator<<\<close> and \<^verbatim>\<open>std::stod\<close>) are
  parameters of the codec below.
\<close>

datatype 'r component =
    Game string 'r
  | Group string "'r component list"

fun isGroup :: "'r component \<Rightarrow> bool" where
  "isGroup (Game name revenue) = False"
| "isGroup (Group name children) = True"

text \<open>\<^verbatim>\<open>getName\<close> exists on both classes and returns the stored name.\<close>

fun getName :: "'r component \<Rightarrow> string" where
  "getName (Game name revenue) = name"
| "getName (Group name children) = name"

text \<open>\<^verbatim>\<open>Game::addRevenue\<close>: \<^verbatim>\<open>revenue += amount\<close>; a method of \<^verbatim>\<open>Game\<close> only.\<close>

fun addRevenue :: "('r::plus) component \<Rightarrow> 'r \<Rightarrow> 'r component" where
  "addRevenue (Game name revenue) amount = Game name (revenue + amount)"

text \<open>\<^verbatim>\<open>Group::add\<close>: \<^verbatim>\<open>children.push_back(std::move(component))\<close>; a method of \<^verbatim>\<open>Group\<close> only.\<close>

fun add :: "'r component \<Rightarrow> 'r component \<Rightarrow> 'r component" where
  "add (Group name children) component = Group name (children @ [component])"

text \<open>
  \<^verbatim>\<open>getRevenue\<close>: a game returns its field; a group runs
  \<^verbatim>\<open>total = 0.0; for (child : children) total += child->getRevenue();\<close>.
\<close>

fun getRevenue :: "('r::{plus,zero}) component \<Rightarrow> 'r" where
  "getRevenue (Game name revenue) = revenue"
| "getRevenue (Group name children) =
     fold (\<lambda>child total. total + getRevenue child) children 0"

text \<open>
  \<^verbatim>\<open>Group::getChildren\<close>: the loop pushes \<^verbatim>\<open>child.get()\<close> for each child in turn. A
  non-owning pointer is modelled by the component it points to.
\<close>

fun getChildren :: "'r component \<Rightarrow> 'r component list" where
  "getChildren (Group name children) = fold (\<lambda>child result. result @ [child]) children []"

text \<open>
  \<^verbatim>\<open>Group::getAllGames\<close>: for each child, either the games of the sub-group are
  inserted at the end of \<^verbatim>\<open>games\<close>, or the child itself is pushed.
\<close>

fun getAllGames :: "'r component \<Rightarrow> 'r component list" where
  "getAllGames (Group name children) =
     fold (\<lambda>child games.
             if isGroup child then games @ getAllGames child else games @ [child])
          children []"

text \<open>
  The leaves of a subtree in depth-first, left-to-right order, as a reference
  against which \<open>getAllGames\<close> is compared.
\<close>

fun leaves :: "'r component \<Rightarrow> 'r component list" where
  "leaves (Game name revenue) = [Game name revenue]"
| "leaves (Group name children) = concat (map leaves children)"

text \<open>
  \<^verbatim>\<open>display\<close> writes lines to \<^verbatim>\<open>std::cout\<close>; the console is the list of lines
  written so far. Two spaces are written per level (\<open>spaces\<close>), and a revenue is
  written by \<^verbatim>\<open>operator<<(double)\<close>, the parameter \<open>fmt\<close>.
\<close>

definition spaces :: "nat \<Rightarrow> string" where
  "spaces n = concat (replicate n ''  '')"

fun display :: "('r \<Rightarrow> string) \<Rightarrow> ('r::{plus,zero}) component \<Rightarrow> nat
                  \<Rightarrow> string list \<Rightarrow> string list" where
  "display fmt (Game name revenue) indent cout =
     cout @ [spaces indent @ name @ '' | Revenue: '' @ fmt revenue]"
| "display fmt (Group name children) indent cout =
     fold (\<lambda>child cout'. display fmt child (indent + 1) cout') children
          (cout @ [spaces indent @ ''----- '' @ name @ '' -----''])
     @ [spaces indent @ ''Total: '' @ fmt (getRevenue (Group name children))]"

section \<open>Text codec (src/main.cpp, save, getDepth, trimSpaces, parse)\<close>

text \<open>
  \<^verbatim>\<open>save\<close> appends to the output stream \<open>out\<close>, the characters written so far;
  \<^verbatim>\<open>std::endl\<close> writes the newline character.
\<close>

fun save :: "('r \<Rightarrow> string) \<Rightarrow> 'r component \<Rightarrow> nat \<Rightarrow> string \<Rightarrow> string" where
  "save fmt (Game name revenue) depth out =
     out @ spaces depth @ ''GAME '' @ name @ '' '' @ fmt revenue @ [CHR 0x0A]"
| "save fmt (Group name children) depth out =
     fold (\<lambda>child out'. save fmt child (depth + 1) out') children
          (out @ spaces depth @ ''GROUP '' @ name @ [CHR 0x0A])"

text \<open>
  \<^verbatim>\<open>getDepth\<close>: the loop runs over \<open>i = 0, 2, 4, \<dots>\<close> while both \<open>line[i]\<close> and
  \<open>line[i + 1]\<close> exist and are spaces. The counter is an \<^verbatim>\<open>int\<close> in the source; it
  is at most half the length of the line, and is a natural number here.
\<close>

function getDepth_loop :: "string \<Rightarrow> nat \<Rightarrow> nat \<Rightarrow> nat" where
  "getDepth_loop line i depth =
     (if i + 1 < length line \<and> line ! i = CHR '' '' \<and> line ! (i + 1) = CHR '' ''
      then getDepth_loop line (i + 2) (depth + 1)
      else depth)"
  by pat_completeness auto
termination
  by (relation "measure (\<lambda>(line, i, depth). length line - i)") auto

definition getDepth :: "string \<Rightarrow> nat" where
  "getDepth line = getDepth_loop line 0 0"

text \<open>\<^verbatim>\<open>trimSpaces\<close>: the same scan, then \<^verbatim>\<open>line.substr(pos)\<close>.\<close>

function trimSpaces_loop :: "string \<Rightarrow> nat \<Rightarrow> nat" where
  "trimSpaces_loop line pos =
     (if pos + 1 < length line \<and> line ! pos = CHR '' '' \<and> line ! (pos + 1) = CHR '' ''
      then trimSpaces_loop line (pos + 2)
      else pos)"
  by pat_completeness auto
termination
  by (relation "measure (\<lambda>(line, pos). length line - pos)") auto

definition trimSpaces :: "string \<Rightarrow> string" where
  "trimSpaces line = drop (trimSpaces_loop line 0) line"

text \<open>
  \<^verbatim>\<open>while (iss >> part) parts.push_back(part);\<close> One extraction skips the leading
  whitespace of the stream (the six characters of \<^verbatim>\<open>std::isspace\<close> in the C locale)
  and takes the characters up to the next whitespace; it fails when nothing but
  whitespace is left.
\<close>

definition isspace :: "char \<Rightarrow> bool" where
  "isspace c \<longleftrightarrow> c \<in> {CHR '' '', CHR 0x09, CHR 0x0A, CHR 0x0B, CHR 0x0C, CHR 0x0D}"

definition read_part :: "string \<Rightarrow> (string \<times> string) option" where
  "read_part iss =
     (let rest = dropWhile isspace iss
      in if rest = [] then None
         else Some (takeWhile (\<lambda>c. \<not> isspace c) rest, dropWhile (\<lambda>c. \<not> isspace c) rest))"

lemma read_part_shorter: "read_part iss = Some (part, iss') \<Longrightarrow> length iss' < length iss"
proof -
  assume a: "read_part iss = Some (part, iss')"
  define rest where "rest = dropWhile isspace iss"
  from a have ne: "rest \<noteq> []" and i: "iss' = dropWhile (\<lambda>c. \<not> isspace c) rest"
    by (auto simp: read_part_def Let_def rest_def split: if_splits)
  from ne obtain c cs where r: "rest = c # cs" by (cases rest) auto
  then have "\<not> isspace c" using hd_dropWhile [of isspace iss] ne by (simp add: rest_def)
  with r i have "length iss' \<le> length cs" by (simp add: length_dropWhile_le)
  also have "\<dots> < length rest" using r by simp
  also have "\<dots> \<le> length iss" by (simp add: rest_def length_dropWhile_le)
  finally show ?thesis .
qed

function read_parts :: "string \<Rightarrow> string list \<Rightarrow> string list" where
  "read_parts iss parts =
     (case read_part iss of
        None \<Rightarrow> parts
      | Some (part, iss') \<Rightarrow> read_parts iss' (parts @ [part]))"
  by pat_completeness auto
termination
  by (relation "measure (\<lambda>(iss, parts). length iss)") (auto dest: read_part_shorter)

text \<open>
  The name of a parsed game: \<^verbatim>\<open>gameName = parts[0]\<close>, then
  \<^verbatim>\<open>gameName += " " + parts[i]\<close> for \<open>i = 1, \<dots>, parts.size() - 2\<close>. It is only run
  on two parts or more.
\<close>

definition gameName_of :: "string list \<Rightarrow> string" where
  "gameName_of parts =
     fold (\<lambda>part gameName. gameName @ '' '' @ part)
          (take (length parts - 1 - 1) (drop 1 parts)) (parts ! 0)"

text \<open>
  \<^verbatim>\<open>std::stod\<close> is the parameter \<open>stod\<close>; it returns \<open>None\<close> where the library
  function throws (\<^verbatim>\<open>std::invalid_argument\<close>, \<^verbatim>\<open>std::out_of_range\<close>). Nothing in
  the program catches the exception, so it is the result of every caller.
\<close>

datatype error = StodFailure

text \<open>
  \<^verbatim>\<open>parse\<close> returns the node (\<open>None\<close> for \<^verbatim>\<open>nullptr\<close>) together with the new value of
  the cursor \<^verbatim>\<open>index\<close>, which the source passes by reference. \<open>parse_children\<close> is
  the \<^verbatim>\<open>while\<close> loop of the group branch; \<open>children\<close> are the children added to the
  group so far.
\<close>

function parse :: "(string \<Rightarrow> 'r option) \<Rightarrow> string list \<Rightarrow> nat
                     \<Rightarrow> error + ('r component option \<times> nat)"
  and parse_children :: "(string \<Rightarrow> 'r option) \<Rightarrow> string list \<Rightarrow> nat \<Rightarrow> nat
                     \<Rightarrow> 'r component list \<Rightarrow> error + ('r component list \<times> nat)"
where
  "parse stod lines index =
     (if index \<ge> length lines then Inr (None, index)
      else if lines ! index = [] then parse stod lines (index + 1)
      else if take 6 (trimSpaces (lines ! index)) = ''GROUP '' then
        (case parse_children stod lines (getDepth (lines ! index)) (index + 1) [] of
           Inl e \<Rightarrow> Inl e
         | Inr (children, index') \<Rightarrow>
             Inr (Some (Group (drop 6 (trimSpaces (lines ! index))) children), index'))
      else if take 5 (trimSpaces (lines ! index)) = ''GAME ''
              \<and> length (read_parts (drop 5 (trimSpaces (lines ! index))) []) \<ge> 2 then
        (case stod (last (read_parts (drop 5 (trimSpaces (lines ! index))) [])) of
           None \<Rightarrow> Inl StodFailure
         | Some revenue \<Rightarrow>
             Inr (Some (Game (gameName_of (read_parts (drop 5 (trimSpaces (lines ! index))) []))
                             revenue),
                  index + 1))
      else Inr (None, index + 1))"
| "parse_children stod lines currentDepth index children =
     (if index < length lines then
        if lines ! index = [] then parse_children stod lines currentDepth (index + 1) children
        else if getDepth (lines ! index) \<le> currentDepth then Inr (children, index)
        else if getDepth (lines ! index) = currentDepth + 1 then
          (case parse stod lines index of
             Inl e \<Rightarrow> Inl e
           | Inr (child, index') \<Rightarrow>
               parse_children stod lines currentDepth index'
                 (case child of None \<Rightarrow> children | Some c \<Rightarrow> children @ [c]))
        else parse_children stod lines currentDepth (index + 1) children
      else Inr (children, index))"
  by pat_completeness auto

text \<open>
  The loop calls \<open>parse\<close> and goes on from the cursor that the call returns, so
  termination needs that a call inside the input moves the cursor forward.
\<close>

lemma parse_index_dom:
  "parse_parse_children_dom (Inl (stod, lines, index)) \<Longrightarrow>
     (\<forall>c i'. parse stod lines index = Inr (c, i') \<longrightarrow>
        index \<le> i' \<and> (index < length lines \<longrightarrow> index < i'))"
  "parse_parse_children_dom (Inr (stod, lines, currentDepth, index, children)) \<Longrightarrow>
     (\<forall>cs i'. parse_children stod lines currentDepth index children = Inr (cs, i') \<longrightarrow>
        index \<le> i')"
proof (induct rule: parse_parse_children.pinduct)
  case (1 stod lines index)
  show ?case
  proof (intro allI impI)
    fix c i'
    assume r: "parse stod lines index = Inr (c, i')"
    show "index \<le> i' \<and> (index < length lines \<longrightarrow> index < i')"
    proof (cases "length lines \<le> index")
      case True
      with r 1(1) show ?thesis by (simp add: parse.psimps)
    next
      case False
      note in_range = this
      show ?thesis
      proof (cases "lines ! index = []")
        case True
        with in_range r 1(1) have "parse stod lines (index + 1) = Inr (c, i')"
          by (simp add: parse.psimps)
        with 1(2) [OF in_range True] show ?thesis by fastforce
      next
        case False
        note nonblank = this
        show ?thesis
        proof (cases "take 6 (trimSpaces (lines ! index)) = ''GROUP ''")
          case True
          with in_range nonblank r 1(1) obtain cs where
            "parse_children stod lines (getDepth (lines ! index)) (index + 1) [] = Inr (cs, i')"
            by (auto simp: parse.psimps split: sum.splits)
          with 1(3) [OF in_range nonblank True] show ?thesis by fastforce
        next
          case False
          with in_range nonblank r 1(1) have "i' = index + 1"
            by (auto simp: parse.psimps split: if_splits option.splits)
          then show ?thesis by simp
        qed
      qed
    qed
  qed
next
  case (2 stod lines currentDepth index children)
  show ?case
  proof (intro allI impI)
    fix cs i'
    assume r: "parse_children stod lines currentDepth index children = Inr (cs, i')"
    show "index \<le> i'"
    proof (cases "index < length lines")
      case False
      with r 2(1) show ?thesis by (simp add: parse_children.psimps)
    next
      case True
      note in_range = this
      show ?thesis
      proof (cases "lines ! index = []")
        case True
        with in_range r 2(1)
        have "parse_children stod lines currentDepth (index + 1) children = Inr (cs, i')"
          by (simp add: parse_children.psimps)
        with 2(2) [OF in_range True] show ?thesis by fastforce
      next
        case False
        note nonblank = this
        show ?thesis
        proof (cases "getDepth (lines ! index) \<le> currentDepth")
          case True
          with in_range nonblank r 2(1) show ?thesis by (simp add: parse_children.psimps)
        next
          case False
          note deeper = this
          show ?thesis
          proof (cases "getDepth (lines ! index) = currentDepth + 1")
            case True
            with in_range nonblank deeper r 2(1) obtain child j where
              p: "parse stod lines index = Inr (child, j)" and
              q: "parse_children stod lines currentDepth j
                    (case child of None \<Rightarrow> children | Some c \<Rightarrow> children @ [c]) = Inr (cs, i')"
              by (auto simp: parse_children.psimps split: sum.splits)
            from 2(3) [OF in_range nonblank deeper True] p in_range have "index < j" by blast
            moreover from 2(4) [OF in_range nonblank deeper True p refl] q have "j \<le> i'" by blast
            ultimately show ?thesis by simp
          next
            case False
            with in_range nonblank deeper r 2(1)
            have "parse_children stod lines currentDepth (index + 1) children = Inr (cs, i')"
              by (simp add: parse_children.psimps)
            with 2(5) [OF in_range nonblank deeper False] show ?thesis by fastforce
          qed
        qed
      qed
    qed
  qed
qed

termination parse
proof (relation "measure (\<lambda>x. case x of
          Inl (stod, lines, index) \<Rightarrow> 2 * (length lines - index)
        | Inr (stod, lines, currentDepth, index, children) \<Rightarrow> 2 * (length lines - index) + 1)",
       goal_cases)
  case (6 stod lines currentDepth index children b x y)
  then have "index < y" using parse_index_dom(1) [of stod lines index] by auto
  with 6 show ?case by auto
qed auto

section \<open>Top-level load and save, and the menu entries that call them\<close>

text \<open>
  \<^verbatim>\<open>while (std::getline(in, line)) lines.push_back(line);\<close> One \<^verbatim>\<open>getline\<close> fails at
  the end of the stream; otherwise it takes the characters up to the next newline
  and consumes the newline.
\<close>

function read_lines :: "string \<Rightarrow> string list \<Rightarrow> string list" where
  "read_lines input lines =
     (if input = [] then lines
      else read_lines (drop 1 (dropWhile (\<lambda>c. c \<noteq> CHR 0x0A) input))
                      (lines @ [takeWhile (\<lambda>c. c \<noteq> CHR 0x0A) input]))"
  by pat_completeness auto
termination
proof (relation "measure (\<lambda>(input, lines). length input)", goal_cases)
  case 1
  show ?case by simp
next
  case (2 input lines)
  then have "0 < length input" by simp
  moreover have "length (dropWhile (\<lambda>c. c \<noteq> CHR 0x0A) input) \<le> length input"
    by (rule length_dropWhile_le)
  ultimately have "length (drop 1 (dropWhile (\<lambda>c. c \<noteq> CHR 0x0A) input)) < length input"
    by (simp only: length_drop)
  then show ?case by simp
qed

text \<open>
  The files of the machine: \<open>files\<close> gives the content of each file that
  \<^verbatim>\<open>std::ifstream\<close> can open, \<open>can_write\<close> tells whether \<^verbatim>\<open>std::ofstream\<close> can open a
  name for writing, and \<open>console\<close> is what has been written to \<^verbatim>\<open>std::cout\<close>.
\<close>

record world =
  files :: "string \<rightharpoonup> string"
  can_write :: "string \<Rightarrow> bool"
  console :: "string list"

definition loadFromFile :: "(string \<Rightarrow> 'r option) \<Rightarrow> world \<Rightarrow> string
                              \<Rightarrow> error + 'r component option" where
  "loadFromFile stod w filename =
     (case files w filename of
        None \<Rightarrow> Inr None
      | Some content \<Rightarrow>
          (case parse stod (read_lines content []) 0 of
             Inl e \<Rightarrow> Inl e
           | Inr (node, index) \<Rightarrow> Inr node))"

definition saveToFile :: "('r \<Rightarrow> string) \<Rightarrow> 'r component \<Rightarrow> string \<Rightarrow> world \<Rightarrow> world" where
  "saveToFile fmt root filename w =
     (if can_write w filename
      then w\<lparr>files := (files w)(filename \<mapsto> save fmt root 0 []),
             console := console w @ [''Saved to: '' @ filename]\<rparr>
      else w)"

text \<open>
  The entries 4 and 5 of the menu in \<^verbatim>\<open>main\<close>, on the state made of \<^verbatim>\<open>root\<close> and
  the machine. Entry 5 replaces \<^verbatim>\<open>root\<close> only by a loaded group.
\<close>

definition main_save :: "('r \<Rightarrow> string) \<Rightarrow> string \<Rightarrow> 'r component \<times> world
                           \<Rightarrow> 'r component \<times> world" where
  "main_save fmt filename st = (fst st, saveToFile fmt (fst st) filename (snd st))"

definition main_load :: "(string \<Rightarrow> 'r option) \<Rightarrow> ('r \<Rightarrow> string) \<Rightarrow> string
                           \<Rightarrow> ('r::{plus,zero}) component \<times> world
                           \<Rightarrow> error + ('r component \<times> world)" where
  "main_load stod fmt filename st =
     (case loadFromFile stod (snd st) filename of
        Inl e \<Rightarrow> Inl e
      | Inr loaded \<Rightarrow>
          (if loaded \<noteq> None \<and> isGroup (the loaded)
           then Inr (the loaded,
                     (snd st)\<lparr>console :=
                        display fmt (the loaded) 0
                          (console (snd st) @ [''Loaded from: '' @ filename])\<rparr>)
           else Inr (fst st,
                     (snd st)\<lparr>console := console (snd st) @ [''Failed to load file!'']\<rparr>)))"

section \<open>Reference notions and sample data\<close>

text \<open>Words joined with single spaces, as a reference for \<open>gameName_of\<close>.\<close>

primrec join_spaces :: "string list \<Rightarrow> string" where
  "join_spaces [] = []"
| "join_spaces (w # ws) = (if ws = [] then w else w @ '' '' @ join_spaces ws)"

text \<open>
  Sample data on which the definitions are run. \<open>fmt_sample\<close> and \<open>stod_sample\<close>
  are a fragment of the two library conversions: they agree with
  \<^verbatim>\<open>operator<<(double)\<close> and \<^verbatim>\<open>std::stod\<close> on the revenues 0 and 10 and on the
  tokens \<^verbatim>\<open>0\<close> and \<^verbatim>\<open>10\<close>, and on every token that does not start like a number,
  where \<^verbatim>\<open>std::stod\<close> throws; no other revenue or numeric token is used with them.
  \<open>no_files\<close> is a machine on which no file can be opened.
\<close>

definition stod_sample :: "string \<Rightarrow> int option" where
  "stod_sample s = (if s = ''10'' then Some 10 else if s = ''0'' then Some 0 else None)"

definition fmt_sample :: "int \<Rightarrow> string" where
  "fmt_sample r = (if r = 10 then ''10'' else ''0'')"

definition no_files :: world where
  "no_files = \<lparr>files = Map.empty, can_write = (\<lambda>filename. False), console = []\<rparr>"



text \<open>
  A fragment of \<^verbatim>\<open>double\<close> on which sums are run: the finite doubles whose value is
  an integer, \<open>Dbl n\<close> being the double of value \<open>n\<close>. An integer is such a value
  when it has at most 53 significant bits, and \<open>Dbl\<close> is meant for those only. The sum of two of them is the exact sum
  rounded to 53 significant bits, to the nearest, a tie going to the even
  significand (IEEE-754 binary64, round-to-nearest-even); it is again an integer.
  \<open>excess_bits m\<close> is the number of bits of \<open>m\<close> beyond 53. Overflow to
  infinity, beyond \<open>2 ^ 1024\<close>, is not in the fragment, nor is the sign of zero.
\<close>

function excess_bits :: "int \<Rightarrow> nat" where
  "excess_bits m = (if m < 2 ^ 53 then 0 else Suc (excess_bits (m div 2)))"
  by pat_completeness auto
termination
proof (relation "measure nat", goal_cases)
  case 1
  show ?case by simp
next
  case (2 m)
  then have "0 < m" by (cases "m \<le> 0") simp_all
  then show ?case by simp
qed

definition round53 :: "int \<Rightarrow> int" where
  "round53 n =
     (let m = \<bar>n\<bar>;
          k = excess_bits m;
          q = m div 2 ^ k;
          r = m mod 2 ^ k
      in sgn n * ((if 2 * r > 2 ^ k \<or> (2 * r = 2 ^ k \<and> odd q) then q + 1 else q) * 2 ^ k))"

datatype dbl = Dbl (value_of: int)

instantiation dbl :: "{plus, zero}"
begin

definition zero_dbl :: dbl where
  "zero_dbl = Dbl 0"

definition plus_dbl :: "dbl \<Rightarrow> dbl \<Rightarrow> dbl" where
  "plus_dbl a b = Dbl (round53 (value_of a + value_of b))"

instance ..

end



text \<open>The same result with the cursor counted \<open>n\<close> further.\<close>

definition shift_cursor :: "nat \<Rightarrow> error + ('a \<times> nat) \<Rightarrow> error + ('a \<times> nat)" where
  "shift_cursor n r = (case r of Inl e \<Rightarrow> Inl e | Inr (x, i) \<Rightarrow> Inr (x, n + i))"

text \<open>
  A saved tree with an over-indented line (the third) and a second record at depth 0
  (the last line).
\<close>

definition sample_lines :: "string list" where
  "sample_lines =
     [''GROUP Casino'',
      ''  GAME Blackjack 10'',
      ''      GAME Orphan 0'',
      ''  GROUP Slots'',
      ''    GAME Mega Joker 0'',
      ''GROUP Next'']"

text \<open>The result of \<open>parse\<close> without the cursor, as \<open>loadFromFile\<close> returns it.\<close>

definition node_of :: "error + ('a \<times> nat) \<Rightarrow> error + 'a" where
  "node_of r = (case r of Inl e \<Rightarrow> Inl e | Inr (node, index) \<Rightarrow> Inr node)"

text \<open>The same result with the cursor mapped by \<open>f\<close>.\<close>

definition map_cursor :: "(nat \<Rightarrow> nat) \<Rightarrow> error + ('a \<times> nat) \<Rightarrow> error + ('a \<times> nat)" where
  "map_cursor f r = (case r of Inl e \<Rightarrow> Inl e | Inr (x, i) \<Rightarrow> Inr (x, f i))"

text \<open>The number of non-blank lines before position \<open>i\<close>.\<close>

definition nonblank_before :: "string list \<Rightarrow> nat \<Rightarrow> nat" where
  "nonblank_before lines i = length (filter (\<lambda>l. l \<noteq> []) (take i lines))"

text \<open>
  What \<open>parse\<close> returns, apart from the cursor, at a non-blank line that is not a
  group record: the leaf branch and the fall-through of the source.
\<close>

definition parse_leaf :: "(string \<Rightarrow> 'r option) \<Rightarrow> string \<Rightarrow> error + 'r component option" where
  "parse_leaf stod line =
     (if take 5 (trimSpaces line) = ''GAME ''
         \<and> length (read_parts (drop 5 (trimSpaces line)) []) \<ge> 2 then
        (case stod (last (read_parts (drop 5 (trimSpaces line)) [])) of
           None \<Rightarrow> Inl StodFailure
         | Some revenue \<Rightarrow>
             Inr (Some (Game (gameName_of (read_parts (drop 5 (trimSpaces line)) [])) revenue)))
      else Inr None)"

text \<open>
  The trees that the text format can carry. A token is a non-empty string without
  whitespace. A name is single-spaced when it consists of non-empty words without
  whitespace, separated by one space each. In a plain tree every game has a
  single-spaced name and a revenue that is printed as one token which \<open>stod\<close>
  reads back as the same value, and no group name contains a newline.
\<close>

definition token :: "string \<Rightarrow> bool" where
  "token t \<longleftrightarrow> t \<noteq> [] \<and> (\<forall>c\<in>set t. \<not> isspace c)"

fun single_spaced :: "string \<Rightarrow> bool" where
  "single_spaced [] = False"
| "single_spaced [c] = (\<not> isspace c)"
| "single_spaced (c # d # cs) =
     (\<not> isspace c \<and> (if d = CHR '' '' then single_spaced cs else single_spaced (d # cs)))"

fun plain_tree :: "('r \<Rightarrow> string) \<Rightarrow> (string \<Rightarrow> 'r option) \<Rightarrow> 'r component \<Rightarrow> bool" where
  "plain_tree fmt stod (Game name revenue) =
     (single_spaced name \<and> token (fmt revenue) \<and> stod (fmt revenue) = Some revenue)"
| "plain_tree fmt stod (Group name children) =
     (CHR 0x0A \<notin> set name \<and> (\<forall>child\<in>set children. plain_tree fmt stod child))"

text \<open>The number of leading pairs of spaces of a line.\<close>

fun leading_pairs :: "string \<Rightarrow> nat" where
  "leading_pairs (a # b # rest) =
     (if a = CHR '' '' \<and> b = CHR '' '' then Suc (leading_pairs rest) else 0)"
| "leading_pairs rest = 0"

text \<open>The lines that \<open>save\<close> writes for a tree, without the newlines.\<close>

fun save_lines :: "('r \<Rightarrow> string) \<Rightarrow> 'r component \<Rightarrow> nat \<Rightarrow> string list" where
  "save_lines fmt (Game name revenue) depth =
     [spaces depth @ ''GAME '' @ name @ '' '' @ fmt revenue]"
| "save_lines fmt (Group name children) depth =
     (spaces depth @ ''GROUP '' @ name)
       # concat (map (\<lambda>child. save_lines fmt child (depth + 1)) children)"

text \<open>
  The lines \<open>post\<close> after a saved subtree end a scan at \<open>depth\<close>: there are none,
  or the first is a non-blank line that is not deeper than \<open>depth\<close>.
\<close>

definition stops_at :: "string list \<Rightarrow> nat \<Rightarrow> bool" where
  "stops_at post depth \<longleftrightarrow> post = [] \<or> (hd post \<noteq> [] \<and> getDepth (hd post) \<le> depth)"

text \<open>A tree in the shape of the one that \<^verbatim>\<open>main\<close> starts with.\<close>

definition sample_tree :: "int component" where
  "sample_tree =
     Group ''Casino''
       [Group ''Table Games'' [Game ''Blackjack'' 10, Game ''Roulette'' 0],
        Group ''Slot Games'' [Game ''Mega Joker'' 0]]"

text \<open>A machine whose saved file is empty.\<close>

definition empty_file :: world where
  "empty_file =
     \<lparr>files = [''casino.txt'' \<mapsto> []], can_write = (\<lambda>filename. True), console = []\<rparr>"

text \<open>A machine whose saved file starts with a line that is not a record.\<close>

definition commented_file :: world where
  "commented_file =
     \<lparr>files = [''casino.txt'' \<mapsto> ''# saved games\<newline>GROUP Casino\<newline>  GAME Lucky 7 10\<newline>''],
      can_write = (\<lambda>filename. True),
      console = []\<rparr>"

section \<open>Aggregation and order\<close>

lemma fold_snoc_acc: "fold (\<lambda>x acc. acc @ f x) xs acc0 = acc0 @ concat (map f xs)"
  by (induction xs arbitrary: acc0) simp_all

lemma fold_plus_acc:
  "fold (\<lambda>x (total::'a::monoid_add). total + f x) xs t0 = t0 + sum_list (map f xs)"
  by (induction xs arbitrary: t0) (simp_all add: add.assoc)

lemma getChildren_Group: "getChildren (Group name children) = children"
  using fold_snoc_acc [of "\<lambda>c. [c]" children "[]"] by simp

lemma fold_if_snoc_acc:
  "fold (\<lambda>x acc. if p x then acc @ f x else acc @ g x) xs acc0
     = acc0 @ concat (map (\<lambda>x. if p x then f x else g x) xs)"
  by (induction xs arbitrary: acc0) simp_all

lemma getAllGames_Group:
  "getAllGames (Group name children) =
     concat (map (\<lambda>child. if isGroup child then getAllGames child else [child]) children)"
  by (simp add: fold_if_snoc_acc)

lemma getAllGames_leaves: "isGroup g \<Longrightarrow> getAllGames g = leaves g"
proof (induction g)
  case (Game name revenue)
  then show ?case by simp
next
  case (Group name children)
  have "(if isGroup child then getAllGames child else [child]) = leaves child"
    if "child \<in> set children" for child
  proof (cases child)
    case (Game n r)
    then show ?thesis by simp
  next
    case (Group n cs)
    then have "isGroup child" by simp
    with that Group.IH show ?thesis by simp
  qed
  then have "map (\<lambda>child. if isGroup child then getAllGames child else [child]) children
           = map leaves children"
    by simp
  then show ?case
    by (simp only: getAllGames_Group leaves.simps)
qed

lemma getRevenue_leaves:
  "getRevenue (g :: ('r::monoid_add) component) = sum_list (map getRevenue (leaves g))"
proof (induction g)
  case (Game name revenue)
  then show ?case by simp
next
  case (Group name children)
  have "getRevenue (Group name children) = sum_list (map getRevenue children)"
    using fold_plus_acc [of getRevenue children 0] by simp
  also have "\<dots> = sum_list (map (\<lambda>c. sum_list (map getRevenue (leaves c))) children)"
    using Group.IH by (simp cong: map_cong)
  also have "\<dots> = sum_list (map getRevenue (concat (map leaves children)))"
    by (induction children) simp_all
  finally show ?case by simp
qed

text \<open>
  In exact arithmetic, where the addition is associative with zero neutral, the
  revenue of a tree is the sum of the revenues of its leaves. The addition of
  \<^verbatim>\<open>double\<close> is not of that kind.
\<close>

lemma getRevenue_exact_arithmetic:
  "getRevenue (Group name children :: ('r::monoid_add) component)
     = sum_list (map getRevenue (getAllGames (Group name children)))"
proof -
  have "getAllGames (Group name children) = leaves (Group name children)"
    by (rule getAllGames_leaves) simp
  then show ?thesis
    using getRevenue_leaves [of "Group name children"] by simp
qed






text \<open>
  Claim C8. \<open>add\<close> appends the new child at the end of the children, \<open>getChildren\<close>
  returns the direct children in the order in which they were added, and
  \<open>getAllGames\<close> returns the leaves of the subtree depth-first, left to right.
\<close>

theorem getChildren_getAllGames_order:
  "getChildren (add (Group name children) c) = getChildren (Group name children) @ [c]
   \<and> getChildren (fold (\<lambda>c g. add g c) cs (Group name [])) = cs
   \<and> getAllGames (Group name children) = concat (map leaves children)"
proof -
  have a: "getChildren (add (Group name children) c) = getChildren (Group name children) @ [c]"
    by (simp only: add.simps getChildren_Group)
  have f: "fold (\<lambda>c g. add g c) xs (Group name ys) = Group name (ys @ xs)" for xs ys
    by (induction xs arbitrary: ys) simp_all
  have b: "getChildren (fold (\<lambda>c g. add g c) cs (Group name [])) = cs"
    by (simp only: f getChildren_Group append_Nil)
  have "getAllGames (Group name children) = leaves (Group name children)"
    by (rule getAllGames_leaves) simp
  then have c: "getAllGames (Group name children) = concat (map leaves children)"
    by simp
  from a b c show ?thesis by blast
qed

section \<open>The recursive-descent parser\<close>

declare parse.simps [simp del] parse_children.simps [simp del]
declare getDepth_loop.simps [simp del] trimSpaces_loop.simps [simp del]
declare read_parts.simps [simp del] read_lines.simps [simp del]


subsection \<open>The branches of parse\<close>

lemma parse_end: "length lines \<le> index \<Longrightarrow> parse stod lines index = Inr (None, index)"
  by (subst parse.simps) simp

lemma parse_blank:
  "index < length lines \<Longrightarrow> lines ! index = [] \<Longrightarrow>
     parse stod lines index = parse stod lines (index + 1)"
  by (subst parse.simps) simp

lemma parse_group:
  "index < length lines \<Longrightarrow> lines ! index \<noteq> [] \<Longrightarrow>
   take 6 (trimSpaces (lines ! index)) = ''GROUP '' \<Longrightarrow>
     parse stod lines index =
       (case parse_children stod lines (getDepth (lines ! index)) (index + 1) [] of
          Inl e \<Rightarrow> Inl e
        | Inr (children, index') \<Rightarrow>
            Inr (Some (Group (drop 6 (trimSpaces (lines ! index))) children), index'))"
  by (subst parse.simps) simp

lemma parse_game:
  "index < length lines \<Longrightarrow> take 5 (trimSpaces (lines ! index)) = ''GAME '' \<Longrightarrow>
   parts = read_parts (drop 5 (trimSpaces (lines ! index))) [] \<Longrightarrow>
     parse stod lines index =
       (if 2 \<le> length parts then
          (case stod (last parts) of
             None \<Rightarrow> Inl StodFailure
           | Some revenue \<Rightarrow> Inr (Some (Game (gameName_of parts) revenue), index + 1))
        else Inr (None, index + 1))"
proof -
  assume a: "index < length lines" "take 5 (trimSpaces (lines ! index)) = ''GAME ''"
    "parts = read_parts (drop 5 (trimSpaces (lines ! index))) []"
  from a(2) have t: "trimSpaces (lines ! index) \<noteq> []" by auto
  have "trimSpaces (lines ! index) = drop (trimSpaces_loop (lines ! index) 0) (lines ! index)"
    by (simp add: trimSpaces_def)
  with t have ne: "lines ! index \<noteq> []" by auto
  have ng: "take 6 (trimSpaces (lines ! index)) \<noteq> ''GROUP ''"
  proof
    assume g: "take 6 (trimSpaces (lines ! index)) = ''GROUP ''"
    have "take 5 (take 6 (trimSpaces (lines ! index))) = take 5 (trimSpaces (lines ! index))"
      by (simp add: take_take)
    with g a(2) show False by simp
  qed
  show ?thesis
    unfolding a(3) using a(1,2) ne ng by (subst parse.simps) simp
qed

lemma parse_other:
  "index < length lines \<Longrightarrow> lines ! index \<noteq> [] \<Longrightarrow>
   take 6 (trimSpaces (lines ! index)) \<noteq> ''GROUP '' \<Longrightarrow>
   take 5 (trimSpaces (lines ! index)) \<noteq> ''GAME '' \<Longrightarrow>
     parse stod lines index = Inr (None, index + 1)"
  by (subst parse.simps) simp

lemma children_end:
  "length lines \<le> index \<Longrightarrow>
     parse_children stod lines currentDepth index children = Inr (children, index)"
  by (subst parse_children.simps) simp

lemma children_blank:
  "index < length lines \<Longrightarrow> lines ! index = [] \<Longrightarrow>
     parse_children stod lines currentDepth index children =
     parse_children stod lines currentDepth (index + 1) children"
  by (subst parse_children.simps) simp

lemma children_stop:
  "index < length lines \<Longrightarrow> lines ! index \<noteq> [] \<Longrightarrow>
   getDepth (lines ! index) \<le> currentDepth \<Longrightarrow>
     parse_children stod lines currentDepth index children = Inr (children, index)"
  by (subst parse_children.simps) simp

lemma children_child:
  "index < length lines \<Longrightarrow> lines ! index \<noteq> [] \<Longrightarrow>
   getDepth (lines ! index) = currentDepth + 1 \<Longrightarrow>
     parse_children stod lines currentDepth index children =
       (case parse stod lines index of
          Inl e \<Rightarrow> Inl e
        | Inr (child, index') \<Rightarrow>
            parse_children stod lines currentDepth index'
              (case child of None \<Rightarrow> children | Some c \<Rightarrow> children @ [c]))"
  by (subst parse_children.simps) simp

lemma children_skip:
  "index < length lines \<Longrightarrow> lines ! index \<noteq> [] \<Longrightarrow>
   currentDepth + 1 < getDepth (lines ! index) \<Longrightarrow>
     parse_children stod lines currentDepth index children =
     parse_children stod lines currentDepth (index + 1) children"
  by (subst parse_children.simps) simp

lemma parse_leaf_line:
  "index < length lines \<Longrightarrow> lines ! index \<noteq> [] \<Longrightarrow>
   take 6 (trimSpaces (lines ! index)) \<noteq> ''GROUP '' \<Longrightarrow>
     parse stod lines index
       = (case parse_leaf stod (lines ! index) of
            Inl e \<Rightarrow> Inl e
          | Inr node \<Rightarrow> Inr (node, index + 1))"
  by (subst parse.simps) (simp add: parse_leaf_def split: option.splits)

subsection \<open>The cursor moves forward\<close>

lemma parse_cursor:
  "parse stod lines index = Inr (c, i') \<Longrightarrow>
     index \<le> i' \<and> (index < length lines \<longrightarrow> index < i') \<and> i' \<le> max index (length lines)"
  "parse_children stod lines currentDepth index children = Inr (cs, i') \<Longrightarrow>
     index \<le> i' \<and> i' \<le> max index (length lines)
     \<and> (length lines \<le> i' \<or> (lines ! i' \<noteq> [] \<and> getDepth (lines ! i') \<le> currentDepth))"
proof (induction stod lines index and stod lines currentDepth index children
       arbitrary: c i' and cs i' rule: parse_parse_children.induct)
  case (1 stod lines index)
  show ?case
  proof (cases "length lines \<le> index")
    case True
    with "1.prems" show ?thesis by (simp add: parse_end)
  next
    case False
    note in_range = this
    show ?thesis
    proof (cases "lines ! index = []")
      case True
      with in_range "1.prems" have "parse stod lines (index + 1) = Inr (c, i')"
        by (simp add: parse_blank)
      with "1.IH"(1) [OF in_range True] in_range show ?thesis by fastforce
    next
      case False
      note nonblank = this
      show ?thesis
      proof (cases "take 6 (trimSpaces (lines ! index)) = ''GROUP ''")
        case True
        with in_range nonblank "1.prems" obtain cs where
          "parse_children stod lines (getDepth (lines ! index)) (index + 1) [] = Inr (cs, i')"
          by (auto simp: parse_group split: sum.splits)
        with "1.IH"(2) [OF in_range nonblank True] in_range show ?thesis by fastforce
      next
        case False
        with in_range nonblank "1.prems" have "i' = index + 1"
          by (subst (asm) parse.simps) (auto split: if_splits option.splits)
        then show ?thesis using in_range by simp
      qed
    qed
  qed
next
  case (2 stod lines currentDepth index children)
  show ?case
  proof (cases "index < length lines")
    case False
    with "2.prems" show ?thesis by (simp add: children_end)
  next
    case True
    note in_range = this
    show ?thesis
    proof (cases "lines ! index = []")
      case True
      with in_range "2.prems"
      have "parse_children stod lines currentDepth (index + 1) children = Inr (cs, i')"
        by (simp add: children_blank)
      with "2.IH"(1) [OF in_range True] in_range show ?thesis by fastforce
    next
      case False
      note nonblank = this
      show ?thesis
      proof (cases "getDepth (lines ! index) \<le> currentDepth")
        case True
        with in_range nonblank "2.prems" show ?thesis by (simp add: children_stop)
      next
        case False
        note deeper = this
        show ?thesis
        proof (cases "getDepth (lines ! index) = currentDepth + 1")
          case True
          with in_range nonblank "2.prems" obtain child j where
            p: "parse stod lines index = Inr (child, j)" and
            q: "parse_children stod lines currentDepth j
                  (case child of None \<Rightarrow> children | Some c \<Rightarrow> children @ [c]) = Inr (cs, i')"
            by (auto simp: children_child split: sum.splits)
          from "2.IH"(2) [OF in_range nonblank deeper True p] in_range
          have "index < j" "j \<le> length lines" by simp_all
          with "2.IH"(3) [OF in_range nonblank deeper True p refl q] show ?thesis by simp
        next
          case False
          with deeper have "currentDepth + 1 < getDepth (lines ! index)" by simp
          with in_range nonblank "2.prems"
          have "parse_children stod lines currentDepth (index + 1) children = Inr (cs, i')"
            by (simp add: children_skip)
          with "2.IH"(4) [OF in_range nonblank deeper False] in_range show ?thesis by fastforce
        qed
      qed
    qed
  qed
qed


lemma parse_index:
  "parse stod lines index = Inr (c, i') \<Longrightarrow>
     index \<le> i' \<and> (index < length lines \<longrightarrow> index < i')"
  "parse_children stod lines currentDepth index children = Inr (cs, i') \<Longrightarrow> index \<le> i'"
  using parse_cursor(1) [of stod lines index c i']
    parse_cursor(2) [of stod lines currentDepth index children cs i']
  by simp_all

lemma parse_upper:
  "parse stod lines index = Inr (c, i') \<Longrightarrow> i' \<le> max index (length lines)"
  "parse_children stod lines currentDepth index children = Inr (cs, i')
     \<Longrightarrow> i' \<le> max index (length lines)"
  using parse_cursor(1) [of stod lines index c i']
    parse_cursor(2) [of stod lines currentDepth index children cs i']
  by simp_all


subsection \<open>The lines before the cursor do not matter\<close>

lemma shift_cursor_simps [simp]:
  "shift_cursor n (Inl e) = Inl e"
  "shift_cursor n (Inr (x, i)) = Inr (x, n + i)"
  by (simp_all add: shift_cursor_def)

lemma parse_append_shift:
  "parse stod (pre @ xs) (length pre + index)
     = shift_cursor (length pre) (parse stod xs index)"
  "parse_children stod (pre @ xs) currentDepth (length pre + index) children
     = shift_cursor (length pre) (parse_children stod xs currentDepth index children)"
proof (induction stod xs index and stod xs currentDepth index children
       rule: parse_parse_children.induct)
  case (1 stod lines index)
  let ?L = "pre @ lines" and ?i = "length pre + index"
  show ?case
  proof (cases "length lines \<le> index")
    case True
    then show ?thesis by (simp add: parse_end)
  next
    case False
    then have r: "index < length lines" and r': "?i < length ?L" by simp_all
    have n: "?L ! ?i = lines ! index" by simp
    show ?thesis
    proof (cases "lines ! index = []")
      case True
      then have "parse stod ?L ?i = parse stod ?L (length pre + (index + 1))"
        using r' n by (simp add: parse_blank)
      then show ?thesis using "1.IH"(1) [OF False True] r True by (simp add: parse_blank)
    next
      case False
      note nonblank = this
      show ?thesis
      proof (cases "take 6 (trimSpaces (lines ! index)) = ''GROUP ''")
        case True
        have "parse_children stod ?L (getDepth (lines ! index)) (?i + 1) []
            = shift_cursor (length pre)
                (parse_children stod lines (getDepth (lines ! index)) (index + 1) [])"
          using "1.IH"(2) [OF \<open>\<not> length lines \<le> index\<close> nonblank True] by (simp add: add.assoc)
        then show ?thesis
          using r r' n nonblank True
          by (simp add: parse_group split: sum.splits prod.splits)
      next
        case False
        have "parse stod ?L ?i = shift_cursor (length pre) (parse stod lines index)"
          using r r' n nonblank False
          by (subst parse.simps, subst (2) parse.simps) (simp split: option.splits)
        then show ?thesis .
      qed
    qed
  qed
next
  case (2 stod lines currentDepth index children)
  let ?L = "pre @ lines" and ?i = "length pre + index"
  show ?case
  proof (cases "index < length lines")
    case False
    then show ?thesis by (simp add: children_end)
  next
    case True
    then have r': "?i < length ?L" by simp
    have n: "?L ! ?i = lines ! index" by simp
    show ?thesis
    proof (cases "lines ! index = []")
      case blank: True
      then have "parse_children stod ?L currentDepth ?i children
               = parse_children stod ?L currentDepth (length pre + (index + 1)) children"
        using r' n by (simp add: children_blank)
      then show ?thesis using "2.IH"(1) [OF True blank] True blank by (simp add: children_blank)
    next
      case nonblank: False
      show ?thesis
      proof (cases "getDepth (lines ! index) \<le> currentDepth")
        case True
        then show ?thesis using \<open>index < length lines\<close> r' n nonblank by (simp add: children_stop)
      next
        case deeper: False
        show ?thesis
        proof (cases "getDepth (lines ! index) = currentDepth + 1")
          case child: True
          note p = "2.IH"(2) [OF True nonblank deeper child]
          show ?thesis
          proof (cases "parse stod lines index")
            case (Inl e)
            then show ?thesis using True r' n nonblank child p by (simp add: children_child)
          next
            case (Inr b)
            obtain c j where b: "b = (c, j)" by (cases b)
            from "2.IH"(3) [OF True nonblank deeper child Inr b [symmetric]]
            show ?thesis using True r' n nonblank child p Inr b by (simp add: children_child)
          qed
        next
          case False
          with deeper have skip: "currentDepth + 1 < getDepth (lines ! index)" by simp
          then have "parse_children stod ?L currentDepth ?i children
                   = parse_children stod ?L currentDepth (length pre + (index + 1)) children"
            using r' n nonblank by (simp add: children_skip)
          then show ?thesis
            using "2.IH"(4) [OF True nonblank deeper False] True nonblank skip
            by (simp add: children_skip)
        qed
      qed
    qed
  qed
qed






subsection \<open>Parts and names of a leaf record\<close>

lemma read_parts_acc: "read_parts iss parts = parts @ read_parts iss []"
proof (induction "length iss" arbitrary: iss parts rule: less_induct)
  case less
  show ?case
  proof (cases "read_part iss")
    case None
    have "read_parts iss parts = parts" for parts
      using None by (subst read_parts.simps) simp
    then show ?thesis by simp
  next
    case (Some a)
    obtain part iss' where a: "a = (part, iss')" by (cases a)
    from Some a have sh: "length iss' < length iss" by (simp add: read_part_shorter)
    have u: "read_parts iss ps = read_parts iss' (ps @ [part])" for ps
      using Some a by (subst read_parts.simps) simp
    have "read_parts iss parts = (parts @ [part]) @ read_parts iss' []"
      using u [of parts] less [OF sh, of "parts @ [part]"] by simp
    moreover have "read_parts iss [] = [part] @ read_parts iss' []"
      using u [of "[]"] less [OF sh, of "[part]"] by simp
    ultimately show ?thesis by simp
  qed
qed

lemma read_parts_None: "read_part iss = None \<Longrightarrow> read_parts iss [] = []"
  by (subst read_parts.simps) simp

lemma read_parts_Some:
  "read_part iss = Some (part, iss') \<Longrightarrow> read_parts iss [] = part # read_parts iss' []"
  using read_parts_acc [of iss' "[part]"] by (subst read_parts.simps) simp

lemma read_part_token:
  "read_part iss = Some (part, iss') \<Longrightarrow> part \<noteq> [] \<and> (\<forall>c\<in>set part. \<not> isspace c)"
proof -
  assume a: "read_part iss = Some (part, iss')"
  define rest where "rest = dropWhile isspace iss"
  from a have ne: "rest \<noteq> []" and p: "part = takeWhile (\<lambda>c. \<not> isspace c) rest"
    by (auto simp: read_part_def Let_def rest_def split: if_splits)
  from ne have "\<not> isspace (hd rest)" using hd_dropWhile [of isspace iss] by (simp add: rest_def)
  with ne p have "part \<noteq> []" by (cases rest) auto
  moreover from p have "\<forall>c\<in>set part. \<not> isspace c" by (auto dest: set_takeWhileD)
  ultimately show ?thesis by simp
qed

lemma read_part_filter:
  "read_part iss = Some (part, iss') \<Longrightarrow>
     filter (\<lambda>c. \<not> isspace c) iss = part @ filter (\<lambda>c. \<not> isspace c) iss'"
proof -
  assume a: "read_part iss = Some (part, iss')"
  define rest where "rest = dropWhile isspace iss"
  from a have p: "part = takeWhile (\<lambda>c. \<not> isspace c) rest"
    and i: "iss' = dropWhile (\<lambda>c. \<not> isspace c) rest"
    by (auto simp: read_part_def Let_def rest_def split: if_splits)
  have "filter (\<lambda>c. \<not> isspace c) iss = filter (\<lambda>c. \<not> isspace c) rest"
    unfolding rest_def by (induction iss) simp_all
  also have "rest = part @ iss'" using p i by simp
  also have "filter (\<lambda>c. \<not> isspace c) (part @ iss') = part @ filter (\<lambda>c. \<not> isspace c) iss'"
    using p by (simp add: filter_id_conv) (auto dest: set_takeWhileD)
  finally show ?thesis .
qed

lemma read_part_None_filter: "read_part iss = None \<Longrightarrow> filter (\<lambda>c. \<not> isspace c) iss = []"
proof -
  assume "read_part iss = None"
  then have "dropWhile isspace iss = []" by (auto simp: read_part_def Let_def split: if_splits)
  then have "\<forall>c\<in>set iss. isspace c" by (simp add: dropWhile_eq_Nil_conv)
  then show ?thesis by (simp add: filter_empty_conv)
qed

lemma read_parts_tokens:
  "(\<forall>p\<in>set (read_parts iss []). p \<noteq> [] \<and> (\<forall>c\<in>set p. \<not> isspace c))
   \<and> concat (read_parts iss []) = filter (\<lambda>c. \<not> isspace c) iss"
proof (induction "length iss" arbitrary: iss rule: less_induct)
  case less
  show ?case
  proof (cases "read_part iss")
    case None
    then show ?thesis by (simp add: read_parts_None read_part_None_filter)
  next
    case (Some a)
    obtain part iss' where a: "a = (part, iss')" by (cases a)
    from Some a have r: "read_part iss = Some (part, iss')" by simp
    from r have sh: "length iss' < length iss" by (rule read_part_shorter)
    show ?thesis
      using less [OF sh] read_part_token [OF r] read_part_filter [OF r]
      by (simp add: read_parts_Some [OF r])
  qed
qed

lemma fold_space_acc:
  "fold (\<lambda>part gameName. gameName @ CHR '' '' # part) ps name
     = name @ concat (map (\<lambda>p. CHR '' '' # p) ps)"
  by (induction ps arbitrary: name) simp_all

lemma join_spaces_Cons: "join_spaces (w # ws) = w @ concat (map (\<lambda>p. CHR '' '' # p) ws)"
  by (induction ws arbitrary: w) simp_all

lemma gameName_of_join:
  "2 \<le> length parts \<Longrightarrow> gameName_of parts = join_spaces (butlast parts)"
proof -
  assume l: "2 \<le> length parts"
  then obtain p rest where parts: "parts = p # rest" and r: "rest \<noteq> []"
    by (cases parts) fastforce+
  have "take (length parts - 1 - 1) (drop 1 parts) = butlast rest"
    using parts by (simp add: butlast_conv_take)
  then have "gameName_of parts = p @ concat (map (\<lambda>p. CHR '' '' # p) (butlast rest))"
    using parts by (simp add: gameName_of_def fold_space_acc)
  also have "\<dots> = join_spaces (p # butlast rest)" by (simp only: join_spaces_Cons)
  also have "p # butlast rest = butlast parts" using parts r by simp
  finally show ?thesis .
qed


text \<open>
  Claim C3. When \<open>parse\<close> stands at a line whose trimmed form begins with
  \<^verbatim>\<open>GAME \<close>, the remainder after the five characters is cut into whitespace-free,
  non-empty parts. With two parts or more, and \<open>revenue\<close> the value that
  \<^verbatim>\<open>std::stod\<close> gives for the last part, the result is the game whose name is the
  parts before the last joined with single spaces, and the cursor is one further;
  where \<^verbatim>\<open>std::stod\<close> throws on the last part, the exception is the result. With
  fewer than two parts no node is returned and the cursor is one further. The
  record \<^verbatim>\<open>GAME Lucky 7 Slot 10\<close> gives the name \<^verbatim>\<open>Lucky 7 Slot\<close> and the value of
  the token \<^verbatim>\<open>10\<close>.
\<close>

theorem parse_game_record:
  assumes "index < length lines"
    and "take 5 (trimSpaces (lines ! index)) = ''GAME ''"
    and "parts = read_parts (drop 5 (trimSpaces (lines ! index))) []"
  shows "(\<forall>p\<in>set parts. p \<noteq> [] \<and> (\<forall>c\<in>set p. \<not> isspace c))
       \<and> concat parts = filter (\<lambda>c. \<not> isspace c) (drop 5 (trimSpaces (lines ! index)))
       \<and> (2 \<le> length parts \<and> stod (last parts) = Some revenue \<longrightarrow>
            parse stod lines index
              = Inr (Some (Game (join_spaces (butlast parts)) revenue), index + 1))
       \<and> (2 \<le> length parts \<and> stod (last parts) = None \<longrightarrow>
            parse stod lines index = Inl StodFailure)
       \<and> (length parts < 2 \<longrightarrow> parse stod lines index = Inr (None, index + 1))
       \<and> (stod ''10'' = Some ten \<longrightarrow>
            parse stod [''GAME Lucky 7 Slot 10''] 0
              = Inr (Some (Game ''Lucky 7 Slot'' ten), 1))"
proof -
  have tok: "(\<forall>p\<in>set parts. p \<noteq> [] \<and> (\<forall>c\<in>set p. \<not> isspace c))
       \<and> concat parts = filter (\<lambda>c. \<not> isspace c) (drop 5 (trimSpaces (lines ! index)))"
    unfolding assms(3) by (rule read_parts_tokens)
  have game: "parse stod lines index
              = Inr (Some (Game (join_spaces (butlast parts)) revenue), index + 1)"
    if "2 \<le> length parts" "stod (last parts) = Some revenue"
    using that parse_game [OF assms, of stod] gameName_of_join [of parts] by simp
  have throw: "parse stod lines index = Inl StodFailure"
    if "2 \<le> length parts" "stod (last parts) = None"
    using that parse_game [OF assms, of stod] by simp
  have few: "parse stod lines index = Inr (None, index + 1)" if "length parts < 2"
    using that parse_game [OF assms, of stod] by simp
  have t: "trimSpaces ''GAME Lucky 7 Slot 10'' = ''GAME Lucky 7 Slot 10''"
    by code_simp
  have p: "read_parts ''Lucky 7 Slot 10'' [] = [''Lucky'', ''7'', ''Slot'', ''10'']"
    by code_simp
  have ex: "parse stod [''GAME Lucky 7 Slot 10''] 0 = Inr (Some (Game ''Lucky 7 Slot'' ten), 1)"
    if "stod ''10'' = Some ten"
    using that parse_game [of 0 "[''GAME Lucky 7 Slot 10'']"
        "[''Lucky'', ''7'', ''Slot'', ''10'']" stod]
    by (simp add: t p gameName_of_def)
  from tok game throw few ex show ?thesis by blast
qed

theorem parse_game_record_witness:
  "0 < length [''  GAME Mega Joker 0'']
   \<and> take 5 (trimSpaces ([''  GAME Mega Joker 0''] ! 0)) = ''GAME ''
   \<and> [''Mega'', ''Joker'', ''0''] = read_parts (drop 5 (trimSpaces ([''  GAME Mega Joker 0''] ! 0))) []
   \<and> stod_sample (last [''Mega'', ''Joker'', ''0'']) = Some 0
   \<and> parse stod_sample [''  GAME Mega Joker 0''] 0 = Inr (Some (Game ''Mega Joker'' 0), 1)
   \<and> parse stod_sample [''GAME Lucky 7 Slot 10''] 0 = Inr (Some (Game ''Lucky 7 Slot'' 10), 1)
   \<and> [''Roulette''] = read_parts (drop 5 (trimSpaces ([''GAME Roulette''] ! 0))) []
   \<and> parse stod_sample [''GAME Roulette''] 0 = Inr (None, 1)
   \<and> [''Lucky'', ''Slot''] = read_parts (drop 5 (trimSpaces ([''GAME Lucky Slot''] ! 0))) []
   \<and> stod_sample (last [''Lucky'', ''Slot'']) = None
   \<and> parse stod_sample [''GAME Lucky Slot''] 0 = Inl StodFailure"
proof -
  have h1: "0 < length [''  GAME Mega Joker 0'']" by simp
  have t: "trimSpaces ''  GAME Mega Joker 0'' = ''GAME Mega Joker 0''" by code_simp
  have h2: "take 5 (trimSpaces ([''  GAME Mega Joker 0''] ! 0)) = ''GAME ''" by (simp add: t)
  have r: "read_parts ''Mega Joker 0'' [] = [''Mega'', ''Joker'', ''0'']" by code_simp
  have h3: "[''Mega'', ''Joker'', ''0'']
              = read_parts (drop 5 (trimSpaces ([''  GAME Mega Joker 0''] ! 0))) []"
    by (simp add: t r)
  have s0: "stod_sample ''0'' = Some 0" and s10: "stod_sample ''10'' = Some 10"
    and sn: "stod_sample ''Slot'' = None"
    by (simp_all add: stod_sample_def)
  from parse_game_record [OF h1 h2 h3, of stod_sample 0 10]
  have a: "parse stod_sample [''  GAME Mega Joker 0''] 0 = Inr (Some (Game ''Mega Joker'' 0), 1)
      \<and> parse stod_sample [''GAME Lucky 7 Slot 10''] 0
          = Inr (Some (Game ''Lucky 7 Slot'' 10), 1)"
    by (simp add: s0 s10)
  have f1: "0 < length [''GAME Roulette'']" by simp
  have ft: "trimSpaces ''GAME Roulette'' = ''GAME Roulette''" by code_simp
  have f2: "take 5 (trimSpaces ([''GAME Roulette''] ! 0)) = ''GAME ''" by (simp add: ft)
  have fr: "read_parts ''Roulette'' [] = [''Roulette'']" by code_simp
  have f3: "[''Roulette''] = read_parts (drop 5 (trimSpaces ([''GAME Roulette''] ! 0))) []"
    by (simp add: ft fr)
  from parse_game_record [OF f1 f2 f3, of stod_sample]
  have b: "parse stod_sample [''GAME Roulette''] 0 = Inr (None, 1)" by simp
  have e1: "0 < length [''GAME Lucky Slot'']" by simp
  have et: "trimSpaces ''GAME Lucky Slot'' = ''GAME Lucky Slot''" by code_simp
  have e2: "take 5 (trimSpaces ([''GAME Lucky Slot''] ! 0)) = ''GAME ''" by (simp add: et)
  have er: "read_parts ''Lucky Slot'' [] = [''Lucky'', ''Slot'']" by code_simp
  have e3: "[''Lucky'', ''Slot''] = read_parts (drop 5 (trimSpaces ([''GAME Lucky Slot''] ! 0))) []"
    by (simp add: et er)
  from parse_game_record [OF e1 e2 e3, of stod_sample]
  have c: "parse stod_sample [''GAME Lucky Slot''] 0 = Inl StodFailure" by (simp add: sn)
  from a b c show ?thesis by (simp add: t r s0 ft fr et er sn)
qed

subsection \<open>Blank lines\<close>

lemma map_cursor_simps [simp]:
  "map_cursor f (Inl e) = Inl e"
  "map_cursor f (Inr (x, i)) = Inr (x, f i)"
  by (simp_all add: map_cursor_def)

lemma node_of_simps [simp]:
  "node_of (Inl e) = Inl e"
  "node_of (Inr (x, i)) = Inr x"
  by (simp_all add: node_of_def)

lemma node_of_map_cursor: "node_of (map_cursor f r) = node_of r"
  by (cases r) auto

lemma nonblank_before_end:
  "length lines \<le> i \<Longrightarrow> nonblank_before lines i = length (filter (\<lambda>l. l \<noteq> []) lines)"
  by (simp add: nonblank_before_def)

lemma nonblank_before_blank:
  "i < length lines \<Longrightarrow> lines ! i = [] \<Longrightarrow>
     nonblank_before lines (Suc i) = nonblank_before lines i"
  by (simp add: nonblank_before_def take_Suc_conv_app_nth)

lemma nonblank_before_line:
  assumes "i < length lines" and "lines ! i \<noteq> []"
  shows "nonblank_before lines (Suc i) = Suc (nonblank_before lines i)"
    and "nonblank_before lines i < length (filter (\<lambda>l. l \<noteq> []) lines)"
    and "filter (\<lambda>l. l \<noteq> []) lines ! nonblank_before lines i = lines ! i"
proof -
  show "nonblank_before lines (Suc i) = Suc (nonblank_before lines i)"
    using assms by (simp add: nonblank_before_def take_Suc_conv_app_nth)
  from id_take_nth_drop [OF assms(1)]
  have "filter (\<lambda>l. l \<noteq> []) lines
      = filter (\<lambda>l. l \<noteq> []) (take i lines @ lines ! i # drop (Suc i) lines)"
    by (rule arg_cong)
  also have "\<dots> = filter (\<lambda>l. l \<noteq> []) (take i lines)
                  @ lines ! i # filter (\<lambda>l. l \<noteq> []) (drop (Suc i) lines)"
    using assms(2) by simp
  finally show "nonblank_before lines i < length (filter (\<lambda>l. l \<noteq> []) lines)"
    and "filter (\<lambda>l. l \<noteq> []) lines ! nonblank_before lines i = lines ! i"
    by (simp_all add: nonblank_before_def nth_append)
qed

lemma parse_filter_blank:
  "parse stod (filter (\<lambda>l. l \<noteq> []) lines) (nonblank_before lines index)
     = map_cursor (nonblank_before lines) (parse stod lines index)"
  "parse_children stod (filter (\<lambda>l. l \<noteq> []) lines) currentDepth (nonblank_before lines index)
       children
     = map_cursor (nonblank_before lines) (parse_children stod lines currentDepth index children)"
proof (induction stod lines index and stod lines currentDepth index children
       rule: parse_parse_children.induct)
  case (1 stod lines index)
  let ?F = "filter (\<lambda>l. l \<noteq> []) lines" and ?n = "nonblank_before lines"
  show ?case
  proof (cases "length lines \<le> index")
    case True
    then show ?thesis by (simp add: parse_end nonblank_before_end)
  next
    case False
    then have r: "index < length lines" by simp
    show ?thesis
    proof (cases "lines ! index = []")
      case True
      from "1.IH"(1) [OF False True] show ?thesis
        using r True by (simp add: parse_blank nonblank_before_blank)
    next
      case False
      note nonblank = this
      note nb = nonblank_before_line [OF r nonblank]
      show ?thesis
      proof (cases "take 6 (trimSpaces (lines ! index)) = ''GROUP ''")
        case True
        from "1.IH"(2) [OF \<open>\<not> length lines \<le> index\<close> nonblank True]
        have "parse_children stod ?F (getDepth (lines ! index)) (Suc (?n index)) []
            = map_cursor ?n (parse_children stod lines (getDepth (lines ! index)) (Suc index) [])"
          using nb(1) by simp
        then show ?thesis
          using r nonblank True nb(2,3)
          by (simp add: parse_group split: sum.splits prod.splits)
      next
        case False
        then show ?thesis
          using r nonblank nb by (simp add: parse_leaf_line split: sum.splits)
      qed
    qed
  qed
next
  case (2 stod lines currentDepth index children)
  let ?F = "filter (\<lambda>l. l \<noteq> []) lines" and ?n = "nonblank_before lines"
  show ?case
  proof (cases "index < length lines")
    case False
    then show ?thesis by (simp add: children_end nonblank_before_end)
  next
    case True
    note r = this
    show ?thesis
    proof (cases "lines ! index = []")
      case blank: True
      from "2.IH"(1) [OF r blank] show ?thesis
        using r blank by (simp add: children_blank nonblank_before_blank)
    next
      case nonblank: False
      note nb = nonblank_before_line [OF r nonblank]
      show ?thesis
      proof (cases "getDepth (lines ! index) \<le> currentDepth")
        case True
        then show ?thesis using r nonblank nb by (simp add: children_stop)
      next
        case deeper: False
        show ?thesis
        proof (cases "getDepth (lines ! index) = currentDepth + 1")
          case child: True
          note p = "2.IH"(2) [OF r nonblank deeper child]
          show ?thesis
          proof (cases "parse stod lines index")
            case (Inl e)
            then show ?thesis using r nonblank child nb p by (simp add: children_child)
          next
            case (Inr b)
            obtain c j where b: "b = (c, j)" by (cases b)
            from "2.IH"(3) [OF r nonblank deeper child Inr b [symmetric]]
            show ?thesis using r nonblank child nb p Inr b by (simp add: children_child)
          qed
        next
          case False
          with deeper have skip: "currentDepth + 1 < getDepth (lines ! index)" by simp
          from "2.IH"(4) [OF r nonblank deeper False] show ?thesis
            using r nonblank skip nb by (simp add: children_skip)
        qed
      qed
    qed
  qed
qed

lemma node_of_filter_blank:
  "node_of (parse stod (filter (\<lambda>l. l \<noteq> []) lines) 0) = node_of (parse stod lines 0)"
  using parse_filter_blank(1) [of stod lines 0]
  by (simp add: nonblank_before_def node_of_map_cursor)

text \<open>
  Claim C7. At a blank line \<open>parse\<close> and the scan of a group go on one line further,
  before any depth is looked at. A blank line inserted anywhere leaves the parsed
  node as it was, and so do any number of them: two inputs with the same non-blank
  lines in the same order give the same node.
\<close>

theorem blank_lines_ignored:
  "(index < length lines \<and> lines ! index = [] \<longrightarrow>
      parse stod lines index = parse stod lines (index + 1)
      \<and> parse_children stod lines d index children
          = parse_children stod lines d (index + 1) children)
   \<and> node_of (parse stod (pre @ [] # post) 0) = node_of (parse stod (pre @ post) 0)
   \<and> (filter (\<lambda>l. l \<noteq> []) lines' = filter (\<lambda>l. l \<noteq> []) lines \<longrightarrow>
        node_of (parse stod lines' 0) = node_of (parse stod lines 0))"
proof -
  have same: "node_of (parse stod xs 0) = node_of (parse stod ys 0)"
    if "filter (\<lambda>l. l \<noteq> []) xs = filter (\<lambda>l. l \<noteq> []) ys" for xs ys
    using that node_of_filter_blank [of stod xs] node_of_filter_blank [of stod ys] by simp
  have "filter (\<lambda>l. l \<noteq> []) (pre @ [] # post) = filter (\<lambda>l. l \<noteq> []) (pre @ post)"
    by simp
  then have ins: "node_of (parse stod (pre @ [] # post) 0) = node_of (parse stod (pre @ post) 0)"
    by (rule same)
  have step: "parse stod lines index = parse stod lines (index + 1)
      \<and> parse_children stod lines d index children
          = parse_children stod lines d (index + 1) children"
    if "index < length lines \<and> lines ! index = []"
    using that parse_blank [of index lines stod] children_blank [of index lines stod d children]
    by blast
  from step ins same [of lines' lines] show ?thesis by blast
qed

theorem blank_lines_ignored_witness:
  "filter (\<lambda>l. l \<noteq> []) [[], ''GROUP Casino'', [], [], ''  GAME Lucky 7 10'', []]
     = filter (\<lambda>l. l \<noteq> []) [''GROUP Casino'', ''  GAME Lucky 7 10'']
   \<and> node_of (parse stod_sample [[], ''GROUP Casino'', [], [], ''  GAME Lucky 7 10'', []] 0)
       = Inr (Some (Group ''Casino'' [Game ''Lucky 7'' 10]))
   \<and> 0 < length [[], ''GROUP Casino'', [], [], ''  GAME Lucky 7 10'', []]
   \<and> [[], ''GROUP Casino'', [], [], ''  GAME Lucky 7 10'', []] ! 0 = []
   \<and> parse stod_sample [[], ''GROUP Casino'', [], [], ''  GAME Lucky 7 10'', []] 0
       = parse stod_sample [[], ''GROUP Casino'', [], [], ''  GAME Lucky 7 10'', []] (0 + 1)"
proof -
  have p: "parse stod_sample [''GROUP Casino'', ''  GAME Lucky 7 10''] 0
             = Inr (Some (Group ''Casino'' [Game ''Lucky 7'' 10]), 2)"
    by code_simp
  have f: "filter (\<lambda>l. l \<noteq> []) [[], ''GROUP Casino'', [], [], ''  GAME Lucky 7 10'', []]
     = filter (\<lambda>l. l \<noteq> []) [''GROUP Casino'', ''  GAME Lucky 7 10'']"
    by simp
  from blank_lines_ignored
    [where stod = stod_sample
       and lines' = "[[], ''GROUP Casino'', [], [], ''  GAME Lucky 7 10'', []]"
       and lines = "[''GROUP Casino'', ''  GAME Lucky 7 10'']"] f
  have "node_of (parse stod_sample [[], ''GROUP Casino'', [], [], ''  GAME Lucky 7 10'', []] 0)
       = node_of (parse stod_sample [''GROUP Casino'', ''  GAME Lucky 7 10''] 0)"
    by blast
  moreover
  have b: "0 < length [[], ''GROUP Casino'', [], [], ''  GAME Lucky 7 10'', []]
       \<and> [[], ''GROUP Casino'', [], [], ''  GAME Lucky 7 10'', []] ! 0 = []"
    by simp
  from blank_lines_ignored
    [where stod = stod_sample and index = 0
       and lines = "[[], ''GROUP Casino'', [], [], ''  GAME Lucky 7 10'', []]"] b
  have "parse stod_sample [[], ''GROUP Casino'', [], [], ''  GAME Lucky 7 10'', []] 0
       = parse stod_sample [[], ''GROUP Casino'', [], [], ''  GAME Lucky 7 10'', []] (0 + 1)"
    by blast
  ultimately show ?thesis using f b by (simp add: p)
qed

subsection \<open>A second record at depth 0 ends the parse\<close>

lemma parse_truncate:
  "k < length lines \<Longrightarrow> lines ! k \<noteq> [] \<Longrightarrow> getDepth (lines ! k) = 0 \<Longrightarrow>
   index < k \<Longrightarrow> \<exists>j. index \<le> j \<and> j < k \<and> lines ! j \<noteq> [] \<Longrightarrow>
     parse stod (take k lines) index = parse stod lines index"
  "k < length lines \<Longrightarrow> lines ! k \<noteq> [] \<Longrightarrow> getDepth (lines ! k) = 0 \<Longrightarrow>
   index \<le> k \<Longrightarrow>
     parse_children stod (take k lines) currentDepth index children
       = parse_children stod lines currentDepth index children"
proof (induction stod lines index and stod lines currentDepth index children
       rule: parse_parse_children.induct)
  case (1 stod lines index)
  let ?T = "take k lines"
  from "1.prems" have lenT: "length ?T = k" by simp
  from "1.prems" have r: "\<not> length lines \<le> index" and rT: "index < length ?T" by simp_all
  from "1.prems" have n: "?T ! index = lines ! index" by simp
  show ?case
  proof (cases "lines ! index = []")
    case True
    from "1.prems"(5) obtain j where j: "index \<le> j" "j < k" "lines ! j \<noteq> []" by blast
    with True have "index \<noteq> j" by auto
    with j have "index + 1 < k" "\<exists>j. index + 1 \<le> j \<and> j < k \<and> lines ! j \<noteq> []"
      by (auto intro: exI [of _ j])
    from "1.IH"(1) [OF r True "1.prems"(1,2,3) this]
    show ?thesis using r rT n True by (simp add: parse_blank)
  next
    case False
    note nonblank = this
    show ?thesis
    proof (cases "take 6 (trimSpaces (lines ! index)) = ''GROUP ''")
      case True
      from "1.prems" have "index + 1 \<le> k" by simp
      from "1.IH"(2) [OF r nonblank True "1.prems"(1,2,3) this]
      show ?thesis using r rT n nonblank True by (simp add: parse_group split: sum.splits)
    next
      case False
      show ?thesis
        using r rT n nonblank False by (simp add: parse_leaf_line)
    qed
  qed
next
  case (2 stod lines currentDepth index children)
  let ?T = "take k lines"
  from "2.prems" have lenT: "length ?T = k" by simp
  show ?case
  proof (cases "index = k")
    case True
    then have "parse_children stod ?T currentDepth index children = Inr (children, index)"
      using lenT by (simp add: children_end)
    moreover have "parse_children stod lines currentDepth index children = Inr (children, index)"
      using True "2.prems" by (simp add: children_stop)
    ultimately show ?thesis by simp
  next
    case False
    with "2.prems" have lt: "index < k" by simp
    with "2.prems" have r: "index < length lines" and rT: "index < length ?T" by simp_all
    from lt have n: "?T ! index = lines ! index" by simp
    show ?thesis
    proof (cases "lines ! index = []")
      case True
      from lt have "index + 1 \<le> k" by simp
      from "2.IH"(1) [OF r True "2.prems"(1,2,3) this]
      show ?thesis using r rT n True by (simp add: children_blank)
    next
      case False
      note nonblank = this
      show ?thesis
      proof (cases "getDepth (lines ! index) \<le> currentDepth")
        case True
        then show ?thesis using r rT n nonblank by (simp add: children_stop)
      next
        case False
        note deeper = this
        show ?thesis
        proof (cases "getDepth (lines ! index) = currentDepth + 1")
          case True
          have "\<exists>j. index \<le> j \<and> j < k \<and> lines ! j \<noteq> []"
            using lt nonblank by (auto intro: exI [of _ index])
          from "2.IH"(2) [OF r nonblank deeper True "2.prems"(1,2,3) lt this]
          have p: "parse stod ?T index = parse stod lines index" .
          show ?thesis
          proof (cases "parse stod lines index")
            case (Inl e)
            then show ?thesis using r rT n nonblank True p by (simp add: children_child)
          next
            case (Inr b)
            obtain c j where b: "b = (c, j)" by (cases b)
            from p Inr b have "parse stod ?T index = Inr (c, j)" by simp
            from parse_upper(1) [OF this] lenT lt have "j \<le> k" by simp
            from "2.IH"(3) [OF r nonblank deeper True Inr b [symmetric] "2.prems"(1,2,3) this]
            show ?thesis using r rT n nonblank True p Inr b by (simp add: children_child)
          qed
        next
          case False
          with deeper have skip: "currentDepth + 1 < getDepth (lines ! index)" by simp
          from lt have "index + 1 \<le> k" by simp
          from "2.IH"(4) [OF r nonblank deeper False "2.prems"(1,2,3) this]
          show ?thesis using r rT n nonblank skip by (simp add: children_skip)
        qed
      qed
    qed
  qed
qed


text \<open>
  Claim C10. When a non-blank line of depth 0 follows the first record, \<open>parse\<close>
  from cursor 0 never moves past it and returns what it returns on the lines before
  it alone; \<open>loadFromFile\<close> hands that node to its caller as an ordinary result.
\<close>

theorem load_first_record_only:
  assumes "j < k" and "lines ! j \<noteq> []"
    and "k < length lines" and "lines ! k \<noteq> []" and "getDepth (lines ! k) = 0"
  shows "parse stod lines 0 = parse stod (take k lines) 0
       \<and> (\<forall>node index. parse stod lines 0 = Inr (node, index) \<longrightarrow> index \<le> k)
       \<and> (files w filename = Some content \<and> read_lines content [] = lines \<longrightarrow>
            loadFromFile stod w filename = node_of (parse stod (take k lines) 0))"
proof -
  have ex: "\<exists>i. 0 \<le> i \<and> i < k \<and> lines ! i \<noteq> []"
    using assms(1,2) by (auto intro: exI [of _ j])
  from assms(1) have "0 < k" by simp
  have eq: "parse stod lines 0 = parse stod (take k lines) 0"
    by (rule parse_truncate(1) [OF assms(3,4,5) \<open>0 < k\<close> ex, symmetric])
  have up: "index \<le> k" if "parse stod lines 0 = Inr (node, index)" for node index
  proof -
    from that eq have "parse stod (take k lines) 0 = Inr (node, index)" by simp
    from parse_upper(1) [OF this] assms(3) show ?thesis by simp
  qed
  have load: "loadFromFile stod w filename = node_of (parse stod (take k lines) 0)"
    if "files w filename = Some content" "read_lines content [] = lines"
    using that eq by (simp add: loadFromFile_def node_of_def)
  from eq up load show ?thesis by blast
qed

theorem load_first_record_only_witness:
  "(0::nat) < 5 \<and> sample_lines ! 0 \<noteq> [] \<and> 5 < length sample_lines
   \<and> sample_lines ! 5 \<noteq> [] \<and> getDepth (sample_lines ! 5) = 0
   \<and> parse stod_sample sample_lines 0
       = Inr (Some (Group ''Casino''
               [Game ''Blackjack'' 10, Group ''Slots'' [Game ''Mega Joker'' 0]]), 5)"
proof -
  have h1: "(0::nat) < 5" by simp
  have h2: "sample_lines ! 0 \<noteq> []" and h3: "5 < length sample_lines"
    and h4: "sample_lines ! 5 \<noteq> []"
    by (simp_all add: sample_lines_def)
  have h5: "getDepth (sample_lines ! 5) = 0" by code_simp
  have p: "parse stod_sample (take 5 sample_lines) 0
       = Inr (Some (Group ''Casino''
               [Game ''Blackjack'' 10, Group ''Slots'' [Game ''Mega Joker'' 0]]), 5)"
    by code_simp
  from load_first_record_only [OF h1 h2 h3 h4 h5, where stod = stod_sample] p h1 h2 h3 h4 h5
  show ?thesis by simp
qed

subsection \<open>Lines that are not records\<close>

lemma parse_no_error:
  "\<forall>l\<in>set lines. \<exists>node. parse_leaf stod l = Inr node \<Longrightarrow> \<exists>r. parse stod lines index = Inr r"
  "\<forall>l\<in>set lines. \<exists>node. parse_leaf stod l = Inr node \<Longrightarrow>
     \<exists>r. parse_children stod lines currentDepth index children = Inr r"
proof (induction stod lines index and stod lines currentDepth index children
       rule: parse_parse_children.induct)
  case (1 stod lines index)
  show ?case
  proof (cases "length lines \<le> index")
    case True
    then show ?thesis by (simp add: parse_end)
  next
    case False
    then have r: "index < length lines" by simp
    show ?thesis
    proof (cases "lines ! index = []")
      case True
      with "1.IH"(1) [OF False True "1.prems"] r show ?thesis by (simp add: parse_blank)
    next
      case False
      note nonblank = this
      show ?thesis
      proof (cases "take 6 (trimSpaces (lines ! index)) = ''GROUP ''")
        case True
        from "1.IH"(2) [OF \<open>\<not> length lines \<le> index\<close> nonblank True "1.prems"]
        obtain cs i where
          "parse_children stod lines (getDepth (lines ! index)) (index + 1) [] = Inr (cs, i)"
          by auto
        with r nonblank True show ?thesis by (simp add: parse_group)
      next
        case False
        from r "1.prems" obtain node where "parse_leaf stod (lines ! index) = Inr node"
          by (meson nth_mem)
        with r nonblank False show ?thesis by (simp add: parse_leaf_line)
      qed
    qed
  qed
next
  case (2 stod lines currentDepth index children)
  show ?case
  proof (cases "index < length lines")
    case False
    then show ?thesis by (simp add: children_end)
  next
    case True
    note r = this
    show ?thesis
    proof (cases "lines ! index = []")
      case blank: True
      with "2.IH"(1) [OF r blank "2.prems"] r show ?thesis by (simp add: children_blank)
    next
      case nonblank: False
      show ?thesis
      proof (cases "getDepth (lines ! index) \<le> currentDepth")
        case True
        with r nonblank show ?thesis by (simp add: children_stop)
      next
        case deeper: False
        show ?thesis
        proof (cases "getDepth (lines ! index) = currentDepth + 1")
          case child: True
          from "2.IH"(2) [OF r nonblank deeper child "2.prems"] obtain c j where
            p: "parse stod lines index = Inr (c, j)"
            by auto
          from "2.IH"(3) [OF r nonblank deeper child p refl "2.prems"]
          show ?thesis using r nonblank child p by (simp add: children_child)
        next
          case False
          with deeper have skip: "currentDepth + 1 < getDepth (lines ! index)" by simp
          from "2.IH"(4) [OF r nonblank deeper False "2.prems"]
          show ?thesis using r nonblank skip by (simp add: children_skip)
        qed
      qed
    qed
  qed
qed

lemma parse_skip_blanks:
  "index \<le> length lines \<Longrightarrow> \<forall>i<index. lines ! i = [] \<Longrightarrow>
     parse stod lines 0 = parse stod lines index"
proof (induction index)
  case 0
  show ?case by simp
next
  case (Suc index)
  then have "parse stod lines 0 = parse stod lines index" by simp
  also have "\<dots> = parse stod lines (index + 1)"
    using Suc.prems by (intro parse_blank) simp_all
  finally show ?case by simp
qed

text \<open>
  Claim C6, as the code has it. At a non-blank line whose trimmed form begins with
  neither \<^verbatim>\<open>GROUP \<close> nor \<^verbatim>\<open>GAME \<close>, \<open>parse\<close> returns no node and moves the cursor
  one further; in the scan of a group at the depth just above, nothing is added for
  the line and the scan goes on after it. When the line is the first non-blank line
  of the input, \<open>parse\<close> from cursor 0 returns no node. No line raises an error
  unless \<^verbatim>\<open>std::stod\<close> throws on the last part of a leaf record, and then at a
  group record \<open>parse\<close> returns a group.
\<close>

theorem unrecognized_line_skipped:
  assumes "index < length lines" and "lines ! index \<noteq> []"
  shows "(take 6 (trimSpaces (lines ! index)) \<noteq> ''GROUP ''
          \<and> take 5 (trimSpaces (lines ! index)) \<noteq> ''GAME '' \<longrightarrow>
            parse stod lines index = Inr (None, index + 1)
            \<and> (getDepth (lines ! index) = d + 1 \<longrightarrow>
                 parse_children stod lines d index children
                   = parse_children stod lines d (index + 1) children)
            \<and> ((\<forall>i<index. lines ! i = []) \<longrightarrow> parse stod lines 0 = Inr (None, index + 1)))
       \<and> ((\<forall>l\<in>set lines. \<exists>node. parse_leaf stod l = Inr node) \<longrightarrow>
            (\<exists>r. parse stod lines 0 = Inr r)
            \<and> (take 6 (trimSpaces (lines ! index)) = ''GROUP '' \<longrightarrow>
                 (\<exists>cs i. parse stod lines index
                    = Inr (Some (Group (drop 6 (trimSpaces (lines ! index))) cs), i))))"
proof -
  have skip: "parse stod lines index = Inr (None, index + 1)"
    if "take 6 (trimSpaces (lines ! index)) \<noteq> ''GROUP ''"
      "take 5 (trimSpaces (lines ! index)) \<noteq> ''GAME ''"
    using assms that by (rule parse_other)
  have scan: "parse_children stod lines d index children
                   = parse_children stod lines d (index + 1) children"
    if "take 6 (trimSpaces (lines ! index)) \<noteq> ''GROUP ''"
      "take 5 (trimSpaces (lines ! index)) \<noteq> ''GAME ''"
      "getDepth (lines ! index) = d + 1"
    using assms that(3) skip [OF that(1,2)] by (simp add: children_child)
  have first: "parse stod lines 0 = Inr (None, index + 1)"
    if "take 6 (trimSpaces (lines ! index)) \<noteq> ''GROUP ''"
      "take 5 (trimSpaces (lines ! index)) \<noteq> ''GAME ''"
      "\<forall>i<index. lines ! i = []"
    using parse_skip_blanks [OF _ that(3), of stod] assms(1) skip [OF that(1,2)] by simp
  have total: "\<exists>r. parse stod lines 0 = Inr r"
    if "\<forall>l\<in>set lines. \<exists>node. parse_leaf stod l = Inr node"
    using that by (rule parse_no_error(1))
  have group: "\<exists>cs i. parse stod lines index
                    = Inr (Some (Group (drop 6 (trimSpaces (lines ! index))) cs), i)"
    if ok: "\<forall>l\<in>set lines. \<exists>node. parse_leaf stod l = Inr node"
      and g: "take 6 (trimSpaces (lines ! index)) = ''GROUP ''"
  proof -
    from parse_no_error(2) [OF ok] obtain cs i where
      "parse_children stod lines (getDepth (lines ! index)) (index + 1) [] = Inr (cs, i)"
      by (metis surj_pair)
    with assms g show ?thesis by (simp add: parse_group)
  qed
  from skip scan first total group show ?thesis by blast
qed

theorem unrecognized_line_skipped_witness:
  "1 < length [''GROUP Casino'', ''  # slots'', ''  GAME Lucky 7 10'']
   \<and> [''GROUP Casino'', ''  # slots'', ''  GAME Lucky 7 10''] ! 1 \<noteq> []
   \<and> take 6 (trimSpaces ''  # slots'') \<noteq> ''GROUP ''
   \<and> take 5 (trimSpaces ''  # slots'') \<noteq> ''GAME ''
   \<and> parse stod_sample [''GROUP Casino'', ''  # slots'', ''  GAME Lucky 7 10''] 1 = Inr (None, 2)
   \<and> parse_leaf stod_sample ''GROUP Casino'' = Inr None
   \<and> parse_leaf stod_sample ''  # slots'' = Inr None
   \<and> parse_leaf stod_sample ''  GAME Lucky 7 10'' = Inr (Some (Game ''Lucky 7'' 10))
   \<and> take 6 (trimSpaces ''GROUP Casino'') = ''GROUP ''
   \<and> (\<exists>cs i. parse stod_sample [''GROUP Casino'', ''  # slots'', ''  GAME Lucky 7 10''] 0
         = Inr (Some (Group ''Casino'' cs), i))
   \<and> parse stod_sample [''GROUP Casino'', ''  # slots'', ''  GAME Lucky 7 10''] 0
       = Inr (Some (Group ''Casino'' [Game ''Lucky 7'' 10]), 3)"
proof -
  let ?lines = "[''GROUP Casino'', ''  # slots'', ''  GAME Lucky 7 10'']"
  have h1: "1 < length ?lines" and h2: "?lines ! 1 \<noteq> []" by simp_all
  have h0: "0 < length ?lines" and n0: "?lines ! 0 \<noteq> []" by simp_all
  have t: "trimSpaces ''  # slots'' = ''# slots''" by code_simp
  have g: "trimSpaces ''GROUP Casino'' = ''GROUP Casino''" by code_simp
  have l0: "parse_leaf stod_sample ''GROUP Casino'' = Inr None" by code_simp
  have l1: "parse_leaf stod_sample ''  # slots'' = Inr None" by code_simp
  have l2: "parse_leaf stod_sample ''  GAME Lucky 7 10'' = Inr (Some (Game ''Lucky 7'' 10))"
    by code_simp
  have ok: "\<forall>l\<in>set ?lines. \<exists>node. parse_leaf stod_sample l = Inr node"
    by (simp add: l0 l1 l2)
  have p: "parse stod_sample ?lines 0 = Inr (Some (Group ''Casino'' [Game ''Lucky 7'' 10]), 3)"
    by code_simp
  from unrecognized_line_skipped [OF h1 h2, of stod_sample] t
  have a: "parse stod_sample ?lines 1 = Inr (None, 2)" by simp
  from unrecognized_line_skipped [OF h0 n0, of stod_sample] ok g
  have b: "\<exists>cs i. parse stod_sample ?lines 0 = Inr (Some (Group ''Casino'' cs), i)" by simp
  from h1 h2 t g a l0 l1 l2 b p show ?thesis by simp
qed

text \<open>
  The claim C6 as stated fails: an unrecognized first line makes the whole load
  fail, although a group record follows it.
\<close>

theorem unrecognized_first_line_fails_load:
  "loadFromFile stod_sample commented_file ''casino.txt'' = (Inr None :: error + int component option)
   \<and> main_load stod_sample fmt_sample ''casino.txt'' (Group ''Casino Games'' [], commented_file)
       = Inr (Group ''Casino Games'' [],
              commented_file\<lparr>console := [''Failed to load file!'']\<rparr>)"
proof -
  have r: "read_lines ''# saved games\<newline>GROUP Casino\<newline>  GAME Lucky 7 10\<newline>'' []
         = [''# saved games'', ''GROUP Casino'', ''  GAME Lucky 7 10'']"
    by code_simp
  have p: "parse stod_sample [''# saved games'', ''GROUP Casino'', ''  GAME Lucky 7 10''] 0
         = Inr (None, 1)"
    by code_simp
  have l: "loadFromFile stod_sample commented_file ''casino.txt'' = Inr None"
    by (simp add: loadFromFile_def commented_file_def r p)
  then show ?thesis by (simp add: main_load_def commented_file_def)
qed

section \<open>Saving and parsing back\<close>

subsection \<open>Indentation\<close>

lemma drop_two:
  "i + 1 < length line \<Longrightarrow> drop i line = line ! i # line ! (i + 1) # drop (i + 2) line"
  by (simp add: Cons_nth_drop_Suc)

lemma leading_pairs_short: "\<not> i + 1 < length line \<Longrightarrow> leading_pairs (drop i line) = 0"
proof -
  assume "\<not> i + 1 < length line"
  then have "length (drop i line) \<le> 1" by simp
  then show ?thesis by (cases "drop i line" rule: leading_pairs.cases) simp_all
qed

lemma getDepth_loop_pairs:
  "getDepth_loop line i depth = depth + leading_pairs (drop i line)"
proof (induction line i depth rule: getDepth_loop.induct)
  case (1 line i depth)
  show ?case
  proof (cases "i + 1 < length line \<and> line ! i = CHR '' '' \<and> line ! (i + 1) = CHR '' ''")
    case True
    have "getDepth_loop line i depth = getDepth_loop line (i + 2) (depth + 1)"
      using True by (subst getDepth_loop.simps) simp
    also have "\<dots> = depth + 1 + leading_pairs (drop (i + 2) line)"
      using "1.IH" [OF True] by simp
    also have "\<dots> = depth + leading_pairs (drop i line)"
      using True drop_two [of i line] by simp
    finally show ?thesis .
  next
    case False
    have "getDepth_loop line i depth = depth"
      using False by (subst getDepth_loop.simps) auto
    moreover have "leading_pairs (drop i line) = 0"
    proof (cases "i + 1 < length line")
      case True
      with False drop_two [of i line] show ?thesis by auto
    next
      case False
      then show ?thesis by (rule leading_pairs_short)
    qed
    ultimately show ?thesis by simp
  qed
qed

lemma trimSpaces_loop_pairs:
  "trimSpaces_loop line pos = pos + 2 * leading_pairs (drop pos line)"
proof (induction line pos rule: trimSpaces_loop.induct)
  case (1 line pos)
  show ?case
  proof (cases "pos + 1 < length line \<and> line ! pos = CHR '' '' \<and> line ! (pos + 1) = CHR '' ''")
    case True
    have "trimSpaces_loop line pos = trimSpaces_loop line (pos + 2)"
      using True by (subst trimSpaces_loop.simps) simp
    also have "\<dots> = pos + 2 + 2 * leading_pairs (drop (pos + 2) line)"
      using "1.IH" [OF True] by simp
    also have "\<dots> = pos + 2 * leading_pairs (drop pos line)"
      using True drop_two [of pos line] by simp
    finally show ?thesis .
  next
    case False
    have "trimSpaces_loop line pos = pos"
      using False by (subst trimSpaces_loop.simps) auto
    moreover have "leading_pairs (drop pos line) = 0"
    proof (cases "pos + 1 < length line")
      case True
      with False drop_two [of pos line] show ?thesis by auto
    next
      case False
      then show ?thesis by (rule leading_pairs_short)
    qed
    ultimately show ?thesis by simp
  qed
qed

lemma getDepth_pairs: "getDepth line = leading_pairs line"
  by (simp add: getDepth_def getDepth_loop_pairs)

lemma trimSpaces_pairs: "trimSpaces line = drop (2 * leading_pairs line) line"
  by (simp add: trimSpaces_def trimSpaces_loop_pairs)

lemma spaces_Suc: "spaces (Suc n) = CHR '' '' # CHR '' '' # spaces n"
  by (simp add: spaces_def)

lemma leading_pairs_spaces: "leading_pairs (spaces n @ s) = n + leading_pairs s"
  by (induction n) (simp_all add: spaces_Suc, simp add: spaces_def)

lemma length_spaces: "length (spaces n) = 2 * n"
  by (induction n) (simp_all add: spaces_Suc, simp add: spaces_def)

lemma getDepth_indented:
  "leading_pairs s = 0 \<Longrightarrow> getDepth (spaces n @ s) = n"
  by (simp add: getDepth_pairs leading_pairs_spaces)

lemma trimSpaces_indented:
  "leading_pairs s = 0 \<Longrightarrow> trimSpaces (spaces n @ s) = s"
  by (simp add: trimSpaces_pairs leading_pairs_spaces length_spaces)


subsection \<open>The parts of a saved leaf record\<close>

lemma read_parts_space: "isspace c \<Longrightarrow> read_parts (c # s) [] = read_parts s []"
proof -
  assume "isspace c"
  then have "read_part (c # s) = read_part s" by (simp add: read_part_def)
  then show ?thesis by (subst read_parts.simps, subst (2) read_parts.simps) simp
qed

lemma read_parts_char:
  "\<not> isspace c \<Longrightarrow>
     read_parts (c # s) []
       = (c # takeWhile (\<lambda>c. \<not> isspace c) s) # read_parts (dropWhile (\<lambda>c. \<not> isspace c) s) []"
proof -
  assume "\<not> isspace c"
  then have "read_part (c # s)
      = Some (c # takeWhile (\<lambda>c. \<not> isspace c) s, dropWhile (\<lambda>c. \<not> isspace c) s)"
    by (simp add: read_part_def)
  then show ?thesis by (rule read_parts_Some)
qed

lemma read_parts_Nil: "read_parts [] [] = []"
  by (rule read_parts_None) (simp add: read_part_def)

lemma read_parts_token: "token t \<Longrightarrow> read_parts t [] = [t]"
proof -
  assume t: "token t"
  then obtain c cs where tc: "t = c # cs" by (cases t) (auto simp: token_def)
  with t have c: "\<not> isspace c" and cs: "\<forall>x\<in>set cs. \<not> isspace x" by (auto simp: token_def)
  from cs have "takeWhile (\<lambda>c. \<not> isspace c) cs = cs" "dropWhile (\<lambda>c. \<not> isspace c) cs = []"
    by simp_all
  with read_parts_char [OF c, of cs] tc show ?thesis by (simp add: read_parts_Nil)
qed

lemma isspace_space: "isspace (CHR '' '')"
  by (simp add: isspace_def)

lemma join_spaces_char: "join_spaces ((c # w) # ws) = c # join_spaces (w # ws)"
  by simp

lemma read_parts_saved_name:
  "single_spaced name \<Longrightarrow> token t \<Longrightarrow>
     \<exists>ws. ws \<noteq> [] \<and> read_parts (name @ CHR '' '' # t) [] = ws @ [t] \<and> join_spaces ws = name"
proof (induction name rule: single_spaced.induct)
  case 1
  then show ?case by simp
next
  case (2 c)
  then have c: "\<not> isspace c" by simp
  have "read_parts ([c] @ CHR '' '' # t) [] = [c] # read_parts (CHR '' '' # t) []"
    using read_parts_char [OF c, of "CHR '' '' # t"] by (simp add: isspace_space)
  also have "\<dots> = [[c]] @ [t]"
    using "2.prems"(2) by (simp add: read_parts_space isspace_space read_parts_token)
  finally show ?case by (intro exI [of _ "[[c]]"]) simp
next
  case (3 c d cs)
  from "3.prems" have c: "\<not> isspace c" by simp
  show ?case
  proof (cases "d = CHR '' ''")
    case True
    with "3.prems" have "single_spaced cs" by simp
    from "3.IH"(1) [OF True this "3.prems"(2)] obtain ws where
      ws: "ws \<noteq> []" "read_parts (cs @ CHR '' '' # t) [] = ws @ [t]" "join_spaces ws = cs"
      by blast
    have "read_parts ((c # d # cs) @ CHR '' '' # t) []
        = [c] # read_parts (CHR '' '' # cs @ CHR '' '' # t) []"
      using read_parts_char [OF c, of "CHR '' '' # cs @ CHR '' '' # t"] True
      by (simp add: isspace_space)
    also have "\<dots> = ([c] # ws) @ [t]"
      using ws(2) by (simp add: read_parts_space isspace_space)
    finally show ?thesis
      using ws(1,3) True by (intro exI [of _ "[c] # ws"]) simp
  next
    case False
    with "3.prems" have s: "single_spaced (d # cs)" by simp
    then have d: "\<not> isspace d" by (cases cs) simp_all
    from "3.IH"(2) [OF False s "3.prems"(2)] obtain ws where
      ws: "ws \<noteq> []" "read_parts ((d # cs) @ CHR '' '' # t) [] = ws @ [t]"
        "join_spaces ws = d # cs"
      by blast
    let ?rest = "cs @ CHR '' '' # t"
    let ?w = "takeWhile (\<lambda>c. \<not> isspace c) ?rest"
    let ?r = "read_parts (dropWhile (\<lambda>c. \<not> isspace c) ?rest) []"
    from ws(2) read_parts_char [OF d, of ?rest] have w: "(d # ?w) # ?r = ws @ [t]" by simp
    from ws(1) obtain w1 ws' where ws1: "ws = w1 # ws'" by (cases ws) auto
    with w have w1: "w1 = d # ?w" and r: "?r = ws' @ [t]" by simp_all
    have "read_parts ((c # d # cs) @ CHR '' '' # t) [] = (c # d # ?w) # ?r"
      using read_parts_char [OF c, of "d # ?rest"] d by simp
    also have "\<dots> = ((c # w1) # ws') @ [t]" using w1 r by simp
    finally have "read_parts ((c # d # cs) @ CHR '' '' # t) [] = ((c # w1) # ws') @ [t]" .
    moreover have "join_spaces ((c # w1) # ws') = c # d # cs"
      using ws(3) ws1 w1 by (simp only: join_spaces_char)
    ultimately show ?thesis by (intro exI [of _ "(c # w1) # ws'"]) simp
  qed
qed

lemma saved_name_parts:
  assumes "single_spaced name" and "token t"
  shows "2 \<le> length (read_parts (name @ CHR '' '' # t) [])"
    and "last (read_parts (name @ CHR '' '' # t) []) = t"
    and "gameName_of (read_parts (name @ CHR '' '' # t) []) = name"
proof -
  from read_parts_saved_name [OF assms] obtain ws where
    ws: "ws \<noteq> []" "read_parts (name @ CHR '' '' # t) [] = ws @ [t]" "join_spaces ws = name"
    by blast
  from ws(1) have "1 \<le> length ws" by (cases ws) simp_all
  with ws(2) show l: "2 \<le> length (read_parts (name @ CHR '' '' # t) [])" by simp
  from ws(2) show "last (read_parts (name @ CHR '' '' # t) []) = t" by simp
  from gameName_of_join [OF l] ws(2,3)
  show "gameName_of (read_parts (name @ CHR '' '' # t) []) = name" by simp
qed

lemma single_spaced_no_newline: "single_spaced name \<Longrightarrow> CHR 0x0A \<notin> set name"
  by (induction name rule: single_spaced.induct) (auto simp: isspace_def split: if_splits)

lemma token_no_newline: "token t \<Longrightarrow> CHR 0x0A \<notin> set t"
  by (auto simp: token_def isspace_def)


subsection \<open>The lines of a saved tree\<close>

lemma save_append:
  "save fmt t depth out
     = out @ concat (map (\<lambda>l. l @ [CHR 0x0A]) (save_lines fmt t depth))"
proof (induction t arbitrary: depth out)
  case (Game name revenue)
  show ?case by simp
next
  case (Group name children)
  have "fold (\<lambda>child out'. save fmt child (depth + 1) out') cs acc
      = acc @ concat (map (\<lambda>l. l @ [CHR 0x0A])
                       (concat (map (\<lambda>child. save_lines fmt child (depth + 1)) cs)))"
    if "set cs \<subseteq> set children" for cs acc
    using that
  proof (induction cs arbitrary: acc)
    case Nil
    show ?case by simp
  next
    case (Cons c cs)
    then have "c \<in> set children" by simp
    from Group.IH [OF this] Cons show ?case by simp
  qed
  from this [of children] show ?case by simp
qed

lemma read_lines_line:
  "CHR 0x0A \<notin> set l \<Longrightarrow>
     read_lines (l @ CHR 0x0A # rest) lines = read_lines rest (lines @ [l])"
proof -
  assume n: "CHR 0x0A \<notin> set l"
  then have "takeWhile (\<lambda>c. c \<noteq> CHR 0x0A) (l @ CHR 0x0A # rest) = l"
    by (induction l) auto
  moreover from n have "dropWhile (\<lambda>c. c \<noteq> CHR 0x0A) (l @ CHR 0x0A # rest) = CHR 0x0A # rest"
    by (induction l) auto
  ultimately show ?thesis by (subst read_lines.simps) simp
qed

lemma read_lines_concat:
  "\<forall>l\<in>set ls. CHR 0x0A \<notin> set l \<Longrightarrow>
     read_lines (concat (map (\<lambda>l. l @ [CHR 0x0A]) ls)) lines = lines @ ls"
proof (induction ls arbitrary: lines)
  case Nil
  show ?case by (subst read_lines.simps) simp
next
  case (Cons l ls)
  then show ?case by (simp add: read_lines_line)
qed

lemma spaces_no_newline: "CHR 0x0A \<notin> set (spaces n)"
  by (induction n) (simp_all add: spaces_Suc, simp add: spaces_def)

lemma save_lines_no_newline:
  "plain_tree fmt stod t \<Longrightarrow> \<forall>l\<in>set (save_lines fmt t depth). CHR 0x0A \<notin> set l"
proof (induction t arbitrary: depth)
  case (Game name revenue)
  then show ?case
    by (simp add: spaces_no_newline single_spaced_no_newline token_no_newline)
next
  case (Group name children)
  then show ?case by (auto simp: spaces_no_newline)
qed

lemma read_lines_save:
  "plain_tree fmt stod t \<Longrightarrow> read_lines (save fmt t depth []) [] = save_lines fmt t depth"
  using read_lines_concat [OF save_lines_no_newline, of fmt stod t depth "[]"]
  by (simp add: save_append)

lemma save_lines_first:
  "\<exists>l ls. save_lines fmt t depth = l # ls \<and> l \<noteq> [] \<and> getDepth l = depth"
  by (cases t) (simp_all add: getDepth_indented)

subsection \<open>Parsing the lines of a saved tree\<close>

lemma stops_at_children:
  "stops_at post depth \<Longrightarrow>
     stops_at (concat (map (\<lambda>child. save_lines fmt child (depth + 1)) cs) @ post) (depth + 1)"
proof (cases cs)
  case Nil
  assume "stops_at post depth"
  with Nil show ?thesis by (auto simp: stops_at_def)
next
  case (Cons c cs')
  from save_lines_first [of fmt c "depth + 1"] obtain l ls where
    "save_lines fmt c (depth + 1) = l # ls" "l \<noteq> []" "getDepth l = depth + 1"
    by blast
  with Cons show ?thesis by (simp add: stops_at_def)
qed

lemma parse_children_saved:
  assumes ih: "\<And>c depth post. c \<in> set cs \<Longrightarrow> stops_at post depth \<Longrightarrow>
                 parse stod (save_lines fmt c depth @ post) 0
                   = Inr (Some c, length (save_lines fmt c depth))"
    and post: "stops_at post depth"
  shows "parse_children stod
           (concat (map (\<lambda>child. save_lines fmt child (depth + 1)) cs) @ post) depth 0 acc
         = Inr (acc @ cs, length (concat (map (\<lambda>child. save_lines fmt child (depth + 1)) cs)))"
  using ih
proof (induction cs arbitrary: acc)
  case Nil
  show ?case
  proof (cases post)
    case Nil
    then show ?thesis by (simp add: children_end)
  next
    case (Cons l ls)
    with post have "l \<noteq> []" "getDepth l \<le> depth" by (simp_all add: stops_at_def)
    with Cons show ?thesis by (simp add: children_stop)
  qed
next
  case (Cons c cs)
  let ?rest = "concat (map (\<lambda>child. save_lines fmt child (depth + 1)) cs) @ post"
  let ?mine = "save_lines fmt c (depth + 1)"
  from save_lines_first [of fmt c "depth + 1"] obtain l ls where
    first: "?mine = l # ls" "l \<noteq> []" "getDepth l = depth + 1"
    by blast
  have st: "stops_at ?rest (depth + 1)" using post by (rule stops_at_children)
  have p: "parse stod (?mine @ ?rest) 0 = Inr (Some c, length ?mine)"
    using Cons.prems [where c = c and depth = "depth + 1" and post = ?rest] st by simp
  have "parse_children stod (?mine @ ?rest) depth 0 acc
      = parse_children stod (?mine @ ?rest) depth (length ?mine + 0) (acc @ [c])"
    using first p by (simp add: children_child)
  also have "\<dots> = shift_cursor (length ?mine) (parse_children stod ?rest depth 0 (acc @ [c]))"
    by (rule parse_append_shift(2))
  also have "parse_children stod ?rest depth 0 (acc @ [c])
      = Inr ((acc @ [c]) @ cs,
             length (concat (map (\<lambda>child. save_lines fmt child (depth + 1)) cs)))"
    using Cons.prems by (intro Cons.IH) simp
  finally show ?case by simp
qed

lemma leading_pairs_GROUP: "leading_pairs (''GROUP '' @ s) = 0"
  by simp

lemma leading_pairs_GAME: "leading_pairs (''GAME '' @ s) = 0"
  by simp

lemma parse_saved:
  "plain_tree fmt stod t \<Longrightarrow> stops_at post depth \<Longrightarrow>
     parse stod (save_lines fmt t depth @ post) 0 = Inr (Some t, length (save_lines fmt t depth))"
proof (induction t arbitrary: depth post)
  case (Game name revenue)
  let ?l = "spaces depth @ ''GAME '' @ name @ '' '' @ fmt revenue"
  from Game.prems have n: "single_spaced name" and t: "token (fmt revenue)"
    and s: "stod (fmt revenue) = Some revenue"
    by simp_all
  have tr: "trimSpaces ?l = ''GAME '' @ name @ CHR '' '' # fmt revenue"
    using trimSpaces_indented [OF leading_pairs_GAME, of depth "name @ '' '' @ fmt revenue"]
    by simp
  note parts = saved_name_parts [OF n t]
  have "parse stod (?l # post) 0 = Inr (Some (Game name revenue), 1)"
    using parse_game [of 0 "?l # post" "read_parts (name @ CHR '' '' # fmt revenue) []" stod]
      tr parts s
    by simp
  then show ?case by simp
next
  case (Group name children)
  let ?h = "spaces depth @ ''GROUP '' @ name"
  let ?body = "concat (map (\<lambda>child. save_lines fmt child (depth + 1)) children)"
  have tr: "trimSpaces ?h = ''GROUP '' @ name"
    by (rule trimSpaces_indented [OF leading_pairs_GROUP])
  have dp: "getDepth ?h = depth"
    by (rule getDepth_indented [OF leading_pairs_GROUP])
  have ne: "?h \<noteq> []" by simp
  have ih: "parse stod (save_lines fmt c d @ p) 0 = Inr (Some c, length (save_lines fmt c d))"
    if "c \<in> set children" "stops_at p d" for c d p
    using that Group.IH [where depth = d and post = p] Group.prems(1) by simp
  have "parse_children stod ([?h] @ (?body @ post)) depth (length [?h] + 0) []
      = shift_cursor (length [?h]) (parse_children stod (?body @ post) depth 0 [])"
    by (rule parse_append_shift(2))
  also have "parse_children stod (?body @ post) depth 0 [] = Inr ([] @ children, length ?body)"
    using ih Group.prems(2) by (rule parse_children_saved)
  finally have "parse_children stod (?h # ?body @ post) depth 1 []
      = Inr (children, 1 + length ?body)"
    by simp
  then have "parse stod (?h # ?body @ post) 0 = Inr (Some (Group name children), 1 + length ?body)"
    using parse_group [of 0 "?h # ?body @ post" stod] tr dp ne by simp
  then show ?case by simp
qed

text \<open>
  Claim C1, as the code has it. For every plain tree, the lines that \<open>save\<close> writes
  at depth 0, read back by \<^verbatim>\<open>getline\<close> and parsed from cursor 0, give the same tree,
  and the cursor ends after the last line. Names may contain the reserved prefixes.
\<close>

theorem save_parse_roundtrip:
  assumes "plain_tree fmt stod t"
  shows "parse stod (read_lines (save fmt t 0 []) []) 0
       = Inr (Some t, length (read_lines (save fmt t 0 []) []))"
proof -
  have "stops_at [] 0" by (simp add: stops_at_def)
  from parse_saved [OF assms this] show ?thesis
    by (simp add: read_lines_save [OF assms])
qed

theorem save_parse_roundtrip_witness:
  "plain_tree fmt_sample stod_sample sample_tree
   \<and> parse stod_sample (read_lines (save fmt_sample sample_tree 0 []) []) 0
       = Inr (Some sample_tree, 6)"
proof -
  have h: "plain_tree fmt_sample stod_sample sample_tree" by code_simp
  have l: "length (read_lines (save fmt_sample sample_tree 0 []) []) = 6" by code_simp
  from save_parse_roundtrip [OF h] h l show ?thesis by simp
qed

text \<open>
  The claim C1 as stated fails: a game name with two spaces in a row contains no
  reserved prefix, and it comes back with one space.
\<close>

theorem roundtrip_double_space:
  "parse stod_sample
     (read_lines (save fmt_sample (Group ''Casino'' [Game ''Lucky  7'' 10]) 0 []) []) 0
     = Inr (Some (Group ''Casino'' [Game ''Lucky 7'' 10]), 2)
   \<and> Group ''Casino'' [Game ''Lucky 7'' (10::int)] \<noteq> Group ''Casino'' [Game ''Lucky  7'' 10]"
proof -
  have "parse stod_sample
     (read_lines (save fmt_sample (Group ''Casino'' [Game ''Lucky  7'' 10]) 0 []) []) 0
     = Inr (Some (Group ''Casino'' [Game ''Lucky 7'' 10]), 2)"
    by code_simp
  then show ?thesis by simp
qed

section \<open>Load and save at the top level\<close>

text \<open>
  Claim C5. If the file cannot be opened, or \<open>parse\<close> from cursor 0 returns no node,
  \<open>loadFromFile\<close> returns the null pointer, and entry 5 of the menu reports the
  failure and keeps \<open>root\<close> and the files as they were.
\<close>

theorem load_failure_keeps_root:
  assumes "files w filename = None
         \<or> (\<exists>content i. files w filename = Some content
                \<and> parse stod (read_lines content []) 0 = Inr (None, i))"
  shows "loadFromFile stod w filename = Inr None
       \<and> main_load stod fmt filename (root, w)
           = Inr (root, w\<lparr>console := console w @ [''Failed to load file!'']\<rparr>)"
proof -
  from assms have l: "loadFromFile stod w filename = Inr None"
    by (auto simp: loadFromFile_def)
  then show ?thesis by (simp add: main_load_def)
qed

theorem load_failure_keeps_root_witness:
  "files no_files ''casino.txt'' = None
   \<and> loadFromFile stod_sample no_files ''casino.txt'' = Inr None
   \<and> main_load stod_sample fmt_sample ''casino.txt'' (sample_tree, no_files)
       = Inr (sample_tree, no_files\<lparr>console := console no_files @ [''Failed to load file!'']\<rparr>)
   \<and> files empty_file ''casino.txt'' = Some []
   \<and> parse stod_sample (read_lines [] []) 0 = Inr (None, 0)
   \<and> loadFromFile stod_sample empty_file ''casino.txt'' = Inr None
   \<and> main_load stod_sample fmt_sample ''casino.txt'' (sample_tree, empty_file)
       = Inr (sample_tree,
              empty_file\<lparr>console := console empty_file @ [''Failed to load file!'']\<rparr>)"
proof -
  have h: "files no_files ''casino.txt'' = None" by (simp add: no_files_def)
  then have a: "files no_files ''casino.txt'' = None
         \<or> (\<exists>content i. files no_files ''casino.txt'' = Some content
                \<and> parse stod_sample (read_lines content []) 0 = Inr (None, i))"
    by simp
  have f: "files empty_file ''casino.txt'' = Some []" by (simp add: empty_file_def)
  have p: "parse stod_sample (read_lines [] []) 0 = Inr (None, 0)" by code_simp
  from f p have b: "files empty_file ''casino.txt'' = None
         \<or> (\<exists>content i. files empty_file ''casino.txt'' = Some content
                \<and> parse stod_sample (read_lines content []) 0 = Inr (None, i))"
    by blast
  from load_failure_keeps_root [OF a, of fmt_sample sample_tree]
    load_failure_keeps_root [OF b, of fmt_sample sample_tree] h f p
  show ?thesis by simp
qed

text \<open>
  Claim C9, as the code has it. When the destination cannot be opened for writing,
  \<open>saveToFile\<close> changes nothing: no file is written and nothing is printed; the
  function returns no value. When it can be opened, the file receives the
  serialized tree and the line \<^verbatim>\<open>Saved to: \<close> with the file name is printed.
\<close>

theorem saveToFile_unwritable:
  "(\<not> can_write w filename \<longrightarrow> saveToFile fmt root filename w = w)
   \<and> (can_write w filename \<longrightarrow>
        files (saveToFile fmt root filename w) filename = Some (save fmt root 0 [])
        \<and> console (saveToFile fmt root filename w) = console w @ [''Saved to: '' @ filename])"
  by (simp add: saveToFile_def)

theorem saveToFile_unwritable_witness:
  "\<not> can_write no_files ''casino.txt''
   \<and> saveToFile fmt_sample (Group ''Casino Games'' []) ''casino.txt'' no_files = no_files"
proof -
  have h: "\<not> can_write no_files ''casino.txt''" by (simp add: no_files_def)
  with saveToFile_unwritable [of no_files "''casino.txt''" fmt_sample "Group ''Casino Games'' []"]
  show ?thesis by simp
qed

text \<open>
  The claim C9 as stated fails: on a machine where the destination cannot be opened,
  entry 4 of the menu returns the state it was given, console included, so nothing
  tells the caller that the save failed.
\<close>

theorem save_failure_not_surfaced:
  "\<not> can_write no_files ''casino.txt''
   \<and> main_save fmt_sample ''casino.txt'' (Group ''Casino Games'' [], no_files)
       = (Group ''Casino Games'' [], no_files)"
  by (simp add: main_save_def saveToFile_def no_files_def)

end
